theory Spec2Isabelle
  imports Main
begin

section \<open>JSON values and their serialisation\<close>

text \<open>
  The payloads of \<^verbatim>\<open>apiserver.py\<close> are Python dictionaries handed to
  \<^verbatim>\<open>json.dumps\<close>, and the bodies of its responses are rendered by Starlette's
  \<^verbatim>\<open>JSONResponse\<close>. A Python \<^verbatim>\<open>str\<close> is modelled as a \<open>string\<close> whose characters
  are the code points below 256; a \<^verbatim>\<open>dict\<close> is an association list in insertion order.
  Floating point numbers are not modelled.
\<close>

datatype json =
    JNull
  | JBool bool
  | JInt int
  | JString string
  | JArray "json list"
  | JObject "(string \<times> json) list"

definition digit_char :: "nat \<Rightarrow> char" where
  "digit_char n = ''0123456789'' ! (n mod 10)"

text \<open>The decimal digits of a number that is not negative.\<close>

function str_digits :: "int \<Rightarrow> string" where
  "str_digits n =
     (if n < 10 then [digit_char (nat n)]
      else str_digits (n div 10) @ [digit_char (nat (n mod 10))])"
  by pat_completeness auto
termination
  by (relation "measure nat") auto

declare str_digits.simps [simp del]

definition str_int :: "int \<Rightarrow> string" where
  "str_int i = (if i < 0 then CHR ''-'' # str_digits (- i) else str_digits i)"

definition hex_digit :: "nat \<Rightarrow> char" where
  "hex_digit n = ''0123456789abcdef'' ! (n mod 16)"

definition backslash :: char where
  "backslash = CHR 0x5C"

definition dquote :: char where
  "dquote = CHR 0x22"

text \<open>The two-character escapes of \<^verbatim>\<open>json.encoder.ESCAPE_DCT\<close>.\<close>

definition short_escape :: "char \<Rightarrow> string option" where
  "short_escape c =
     (if c = backslash then Some [backslash, backslash]
      else if c = dquote then Some [backslash, dquote]
      else if c = CHR 0x08 then Some [backslash, CHR ''b'']
      else if c = CHR 0x0C then Some [backslash, CHR ''f'']
      else if c = CHR 0x0A then Some [backslash, CHR ''n'']
      else if c = CHR 0x0D then Some [backslash, CHR ''r'']
      else if c = CHR 0x09 then Some [backslash, CHR ''t'']
      else None)"

definition u_escape :: "char \<Rightarrow> string" where
  "u_escape c =
     [backslash, CHR ''u'', CHR ''0'', CHR ''0'',
      hex_digit (of_char c div 16), hex_digit (of_char c)]"

text \<open>
  With \<open>ensure_ascii\<close> every character outside the printable ASCII range is escaped;
  without it only the control characters are.
\<close>

definition escape_char :: "bool \<Rightarrow> char \<Rightarrow> string" where
  "escape_char ensure_ascii c =
     (case short_escape c of
        Some e \<Rightarrow> e
      | None \<Rightarrow>
          if (of_char c :: nat) < 32 \<or> (ensure_ascii \<and> 126 < (of_char c :: nat))
          then u_escape c else [c])"

definition encode_basestring :: "bool \<Rightarrow> string \<Rightarrow> string" where
  "encode_basestring ensure_ascii s =
     dquote # concat (map (escape_char ensure_ascii) s) @ [dquote]"

fun join :: "string \<Rightarrow> string list \<Rightarrow> string" where
  "join sep [] = []"
| "join sep [x] = x"
| "join sep (x # y # ys) = x @ sep @ join sep (y # ys)"

fun dumps :: "bool \<Rightarrow> string \<Rightarrow> string \<Rightarrow> json \<Rightarrow> string" where
  "dumps ea isep ksep JNull = ''null''"
| "dumps ea isep ksep (JBool b) = (if b then ''true'' else ''false'')"
| "dumps ea isep ksep (JInt i) = str_int i"
| "dumps ea isep ksep (JString s) = encode_basestring ea s"
| "dumps ea isep ksep (JArray xs) =
     ''['' @ join isep (map (dumps ea isep ksep) xs) @ '']''"
| "dumps ea isep ksep (JObject kvs) =
     ''{'' @ join isep
        (map (\<lambda>(k, v). encode_basestring ea k @ ksep @ dumps ea isep ksep v) kvs) @ ''}''"

text \<open>\<^verbatim>\<open>json.dumps(payload)\<close> with its defaults: separators \<^verbatim>\<open>(', ', ': ')\<close>, ASCII only.\<close>

definition json_dumps :: "json \<Rightarrow> string" where
  "json_dumps v = dumps True '', '' '': '' v"

subsection \<open>Responses\<close>

record response =
  status_code :: nat
  content :: json

definition JSONResponse :: "nat \<Rightarrow> json \<Rightarrow> response" where
  "JSONResponse code c = \<lparr>status_code = code, content = c\<rparr>"

text \<open>
  The body Starlette renders for a \<^verbatim>\<open>JSONResponse\<close>: compact separators and no ASCII
  escaping (the text before its UTF-8 encoding).
\<close>

definition body :: "response \<Rightarrow> string" where
  "body r = dumps False '','' '':'' (content r)"

section \<open>The client registry and the queues\<close>

text \<open>
  \<^verbatim>\<open>sse_clients\<close> is a module-level list of \<^verbatim>\<open>asyncio.Queue\<close> objects. A queue is
  compared by identity, so the model names each queue object by a number and keeps the
  contents of every queue in a store; \<open>fresh\<close> is the identity the next queue created
  gets. A queue holds strings, oldest first.
\<close>

type_synonym qid = nat

record server =
  sse_clients :: "qid list"
  queues :: "qid \<Rightarrow> string list"
  fresh :: qid

definition init_server :: server where
  "init_server = \<lparr>sse_clients = [], queues = (\<lambda>_. []), fresh = 0\<rparr>"

text \<open>
  \<^verbatim>\<open>await q.put(msg)\<close>: the queues are unbounded, so \<^verbatim>\<open>put\<close> appends at once and never
  suspends.
\<close>

definition queue_put :: "qid \<Rightarrow> string \<Rightarrow> server \<Rightarrow> server" where
  "queue_put q msg s = s\<lparr>queues := (queues s)(q := queues s q @ [msg])\<rparr>"

text \<open>\<^verbatim>\<open>for q in list(sse_clients): await q.put(msg)\<close>, over the copy \<open>qs\<close> of the list.\<close>

definition put_all :: "qid list \<Rightarrow> string \<Rightarrow> server \<Rightarrow> server" where
  "put_all qs msg s = fold (\<lambda>q. queue_put q msg) qs s"

definition broadcast :: "json \<Rightarrow> server \<Rightarrow> server" where
  "broadcast payload s = (let msg = json_dumps payload in put_all (sse_clients s) msg s)"

section \<open>Commands\<close>

definition valid_commands :: "string set" where
  "valid_commands = {''pp'', ''fwd'', ''rew'', ''out''}"

definition send_webcontrol_command :: "string \<Rightarrow> server \<Rightarrow> response \<times> server" where
  "send_webcontrol_command command s =
     (if command \<notin> valid_commands
      then (JSONResponse 400 (JObject [(''error'', JString ''Invalid command'')]), s)
      else
        let payload = JObject [(''type'', JString ''webcontrol''),
                               (''command'', JString command)];
            s' = broadcast payload s
        in (JSONResponse 202 (JObject [(''status'', JString ''Command queued'')]), s'))"

section \<open>Client sessions\<close>

text \<open>
  Exceptions are values. \<open>ValueError\<close> is what \<^verbatim>\<open>list.remove\<close> raises, \<open>TransportError\<close>
  stands for whatever \<^verbatim>\<open>request.is_disconnected()\<close> may raise, \<open>ConnectionError\<close> for
  what a read of the subscription may raise, and \<open>JSONDecodeError\<close> is raised by
  \<^verbatim>\<open>json.loads\<close>. \<open>Unmodelled\<close> and \<open>OutOfFuel\<close> belong to the JSON parser further down.
\<close>

datatype error =
    ValueError | TransportError | ConnectionError | JSONDecodeError | Unmodelled | OutOfFuel

text \<open>
  The handler \<^verbatim>\<open>stream_events\<close>: a new queue object is created and appended to
  \<^verbatim>\<open>sse_clients\<close>, then the generator is built (not yet started) and handed to the
  response. The result names the queue the generator is bound to.
\<close>

definition stream_events :: "server \<Rightarrow> qid \<times> server" where
  "stream_events s =
     (let queue = fresh s;
          s1 = s\<lparr>queues := (queues s)(queue := []), fresh := Suc queue\<rparr>;
          s2 = s1\<lparr>sse_clients := sse_clients s1 @ [queue]\<rparr>
      in (queue, s2))"

text \<open>
  \<^verbatim>\<open>sse_clients.remove(queue)\<close>: Python removes the first occurrence and raises
  \<^verbatim>\<open>ValueError\<close> when there is none.
\<close>

definition sse_clients_remove :: "qid \<Rightarrow> server \<Rightarrow> error + server" where
  "sse_clients_remove queue s =
     (if queue \<in> set (sse_clients s)
      then Inr (s\<lparr>sse_clients := remove1 queue (sse_clients s)\<rparr>)
      else Inl ValueError)"

text \<open>
  The generator \<^verbatim>\<open>event_generator\<close> is a coroutine with three suspension points: the
  probe \<^verbatim>\<open>await request.is_disconnected()\<close>, the read \<^verbatim>\<open>await queue.get()\<close> and the
  \<^verbatim>\<open>yield\<close>. A phase says where the generator stands; an event is what resumes it there,
  and an event that cannot resume it where it stands changes nothing. Cancellation
  arrives at a pending await, closing at the \<^verbatim>\<open>yield\<close>. The response starts the generator
  by asking for its first item. Until then the generator has not entered its \<^verbatim>\<open>try\<close>
  block: when the response is cancelled, or the generator closed or dropped, before the
  first item is asked for, Python finishes the generator without running any of its code,
  the \<^verbatim>\<open>finally\<close> block included.
\<close>

datatype outcome =
    Completed       \<comment> \<open>\<^verbatim>\<open>break\<close> after the probe reported a disconnect\<close>
  | Raised error    \<comment> \<open>an exception left the generator\<close>
  | Cancelled       \<comment> \<open>\<^verbatim>\<open>CancelledError\<close> thrown in at a pending await\<close>
  | Closed          \<comment> \<open>\<^verbatim>\<open>GeneratorExit\<close> thrown in at the yield\<close>
  | Abandoned       \<comment> \<open>dropped before it was started: none of its code has run\<close>

datatype phase =
    Created
  | Probing
  | Getting
  | Yielded string
  | Finished outcome

datatype session_event =
    Next            \<comment> \<open>the consumer asks for the next item\<close>
  | Probe bool      \<comment> \<open>\<^verbatim>\<open>is_disconnected()\<close> returns\<close>
  | ProbeFails      \<comment> \<open>\<^verbatim>\<open>is_disconnected()\<close> raises\<close>
  | Wake            \<comment> \<open>\<^verbatim>\<open>queue.get()\<close> is resumed\<close>
  | Cancel          \<comment> \<open>the task is cancelled\<close>
  | Close           \<comment> \<open>the generator is closed\<close>

text \<open>
  The \<^verbatim>\<open>finally\<close> block. When the removal itself raises, its \<^verbatim>\<open>ValueError\<close> is what
  leaves the generator.
\<close>

definition run_finally :: "qid \<Rightarrow> outcome \<Rightarrow> server \<Rightarrow> phase \<times> server" where
  "run_finally queue out s =
     (case sse_clients_remove queue s of
        Inr s' \<Rightarrow> (Finished out, s')
      | Inl e \<Rightarrow> (Finished (Raised e), s))"

text \<open>\<^verbatim>\<open>await queue.get()\<close>: the oldest item, or nothing while the queue is empty.\<close>

definition queue_get :: "qid \<Rightarrow> server \<Rightarrow> (string \<times> server) option" where
  "queue_get q s =
     (case queues s q of
        [] \<Rightarrow> None
      | msg # rest \<Rightarrow> Some (msg, s\<lparr>queues := (queues s)(q := rest)\<rparr>))"

fun event_generator :: "qid \<Rightarrow> session_event \<Rightarrow> phase \<Rightarrow> server \<Rightarrow> phase \<times> server" where
  "event_generator queue Next Created s = (Probing, s)"
| "event_generator queue Next (Yielded msg) s = (Probing, s)"
| "event_generator queue (Probe disconnected) Probing s =
     (if disconnected then run_finally queue Completed s else (Getting, s))"
| "event_generator queue ProbeFails Probing s = run_finally queue (Raised TransportError) s"
| "event_generator queue Wake Getting s =
     (case queue_get queue s of
        None \<Rightarrow> (Getting, s)
      | Some (msg, s') \<Rightarrow> (Yielded msg, s'))"
| "event_generator queue Cancel Probing s = run_finally queue Cancelled s"
| "event_generator queue Cancel Getting s = run_finally queue Cancelled s"
| "event_generator queue Close (Yielded msg) s = run_finally queue Closed s"
| "event_generator queue Cancel Created s = (Finished Abandoned, s)"
| "event_generator queue Close Created s = (Finished Abandoned, s)"
| "event_generator queue ev ph s = (ph, s)"

section \<open>The upstream listener\<close>

text \<open>
  An entry of \<^verbatim>\<open>pubsub.listen()\<close> is a dictionary; the listener reads its keys
  \<^verbatim>\<open>type\<close> and \<^verbatim>\<open>data\<close> only. With \<^verbatim>\<open>decode_responses=True\<close> the data of a published
  message is a \<^verbatim>\<open>str\<close>.
\<close>

record pubsub_entry =
  msg_type :: string
  msg_data :: string

text \<open>The body of the \<^verbatim>\<open>async for\<close> loop of \<^verbatim>\<open>redis_listener\<close>.\<close>

definition on_entry :: "pubsub_entry \<Rightarrow> server \<Rightarrow> server" where
  "on_entry message s =
     (if msg_type message = ''message''
      then let data = msg_data message in put_all (sse_clients s) data s
      else s)"

text \<open>
  What the stream hands to the loop, one item per read: an entry, or an exception raised
  by the read. \<^verbatim>\<open>redis_listener\<close> has no handler, so an exception leaves the loop and
  the function. The calls made on the subscription object are recorded in order.
\<close>

datatype stream_item = Entry pubsub_entry | Failure

datatype pubsub_call = Subscribe string | Listen

record listener_run =
  calls :: "pubsub_call list"
  raised :: "error option"
  final :: server

fun listen_loop :: "stream_item list \<Rightarrow> server \<Rightarrow> error option \<times> server" where
  "listen_loop [] s = (None, s)"
| "listen_loop (Entry message # rest) s = listen_loop rest (on_entry message s)"
| "listen_loop (Failure # rest) s = (Some ConnectionError, s)"

definition redis_listener :: "string \<Rightarrow> stream_item list \<Rightarrow> server \<Rightarrow> listener_run" where
  "redis_listener UPDATE_CHANNEL stream s =
     (case listen_loop stream s of
        (r, s') \<Rightarrow> \<lparr>calls = [Subscribe UPDATE_CHANNEL, Listen], raised = r, final = s'\<rparr>)"

section \<open>The running server\<close>

text \<open>
  The tasks of the event loop interleave only at suspension points, so the server moves
  in atomic steps: a client connects, a session is resumed, a command request is
  handled, the listener handles one entry it has read. A fan-out loop is part of one
  step, since \<^verbatim>\<open>put\<close> on an unbounded queue does not suspend. The state keeps, next to
  the registry and the queues, the phase of the generator bound to each queue.
\<close>

record system =
  srv :: server
  phase_of :: "qid \<Rightarrow> phase option"

definition init_system :: system where
  "init_system = \<lparr>srv = init_server, phase_of = (\<lambda>_. None)\<rparr>"

datatype event =
    Connect
  | Session qid session_event
  | Command string
  | Upstream pubsub_entry

fun step :: "event \<Rightarrow> system \<Rightarrow> system" where
  "step Connect st =
     (case stream_events (srv st) of
        (q, s') \<Rightarrow> \<lparr>srv = s', phase_of = (phase_of st)(q \<mapsto> Created)\<rparr>)"
| "step (Session q ev) st =
     (case phase_of st q of
        None \<Rightarrow> st
      | Some ph \<Rightarrow>
          (case event_generator q ev ph (srv st) of
             (ph', s') \<Rightarrow> \<lparr>srv = s', phase_of = (phase_of st)(q \<mapsto> ph')\<rparr>))"
| "step (Command c) st = st\<lparr>srv := snd (send_webcontrol_command c (srv st))\<rparr>"
| "step (Upstream message) st = st\<lparr>srv := on_entry message (srv st)\<rparr>"

definition run :: "event list \<Rightarrow> system \<Rightarrow> system" where
  "run evs st = fold step evs st"

text \<open>
  A session is live from the moment its queue is created until its generator has
  finished. The invariant of the running server: the registry lists once the queue of
  every live session and of every session abandoned before its generator started, and
  nothing else; the identities not yet handed out are unused.
\<close>

definition live :: "system \<Rightarrow> qid \<Rightarrow> bool" where
  "live st q =
     (case phase_of st q of
        None \<Rightarrow> False
      | Some (Finished out) \<Rightarrow> False
      | Some _ \<Rightarrow> True)"

definition registry_inv :: "system \<Rightarrow> bool" where
  "registry_inv st \<longleftrightarrow>
     distinct (sse_clients (srv st)) \<and>
     (\<forall>q. q \<in> set (sse_clients (srv st)) \<longleftrightarrow>
          live st q \<or> phase_of st q = Some (Finished Abandoned)) \<and>
     (\<forall>q. fresh (srv st) \<le> q \<longrightarrow> phase_of st q = None \<and> queues (srv st) q = [])"

text \<open>
  A step of session \<open>q\<close> ends the session with the given outcome and takes its queue, and
  nothing else, out of the registry.
\<close>

definition finishes_with :: "system \<Rightarrow> qid \<Rightarrow> session_event \<Rightarrow> outcome \<Rightarrow> bool" where
  "finishes_with st q ev out \<longleftrightarrow>
     phase_of (step (Session q ev) st) q = Some (Finished out) \<and>
     sse_clients (srv (step (Session q ev) st)) = remove1 q (sse_clients (srv st)) \<and>
     q \<notin> set (sse_clients (srv (step (Session q ev) st)))"

section \<open>What is produced and what is delivered\<close>

text \<open>
  Three observations of a run, used to state the order of deliveries. \<open>produced\<close> is the
  item an event puts on the registered queues, if any. \<open>offered q\<close> collects, in order, the
  items produced while queue \<open>q\<close> was registered. \<open>yielded q\<close> collects, in order, the items
  the generator of \<open>q\<close> took from its queue and yielded to its transport.
\<close>

definition produced :: "event \<Rightarrow> string list" where
  "produced e =
     (case e of
        Command c \<Rightarrow>
          if c \<in> valid_commands
          then [json_dumps (JObject [(''type'', JString ''webcontrol''), (''command'', JString c)])]
          else []
      | Upstream message \<Rightarrow>
          if msg_type message = ''message'' then [msg_data message] else []
      | _ \<Rightarrow> [])"

fun offered :: "qid \<Rightarrow> event list \<Rightarrow> system \<Rightarrow> string list" where
  "offered q [] st = []"
| "offered q (e # es) st =
     (if q \<in> set (sse_clients (srv st)) then produced e else []) @ offered q es (step e st)"

fun yielded :: "qid \<Rightarrow> event list \<Rightarrow> system \<Rightarrow> string list" where
  "yielded q [] st = []"
| "yielded q (e # es) st =
     (if e = Session q Wake \<and> phase_of st q = Some Getting
      then take 1 (queues (srv st) q) else []) @ yielded q es (step e st)"

section \<open>The key-value endpoints\<close>

text \<open>
  \<^verbatim>\<open>json.loads\<close> on a \<^verbatim>\<open>str\<close>, for the part of JSON that the datatype \<open>json\<close> covers.
  A malformed text gives \<open>JSONDecodeError\<close>. Where Python would build a value outside
  the model (a float, \<^verbatim>\<open>NaN\<close>, \<^verbatim>\<open>Infinity\<close>, a \<^verbatim>\<open>\u\<close> escape, an integer of more
  than 4300 digits) or might exhaust its recursion limit (nesting deeper than 100), the
  result is \<open>Unmodelled\<close>, about which nothing is stated. The parser recurses on a fuel
  argument that bounds the number of values and members read; \<open>OutOfFuel\<close> marks its
  exhaustion, which the fuel \<open>json_loads\<close> supplies rules out.
\<close>

definition is_ws :: "char \<Rightarrow> bool" where
  "is_ws c \<longleftrightarrow> c = CHR '' '' \<or> c = CHR 0x09 \<or> c = CHR 0x0A \<or> c = CHR 0x0D"

definition skip_ws :: "string \<Rightarrow> string" where
  "skip_ws s = dropWhile is_ws s"

definition starts_with :: "string \<Rightarrow> string \<Rightarrow> bool" where
  "starts_with p s \<longleftrightarrow> take (length p) s = p"

text \<open>The characters that may follow a backslash in a string, \<^verbatim>\<open>u\<close> apart.\<close>

definition unescape :: "char \<Rightarrow> char option" where
  "unescape e =
     (if e = dquote then Some dquote
      else if e = backslash then Some backslash
      else if e = CHR ''/'' then Some (CHR ''/'')
      else if e = CHR ''b'' then Some (CHR 0x08)
      else if e = CHR ''f'' then Some (CHR 0x0C)
      else if e = CHR ''n'' then Some (CHR 0x0A)
      else if e = CHR ''r'' then Some (CHR 0x0D)
      else if e = CHR ''t'' then Some (CHR 0x09)
      else None)"

text \<open>
  The rest of a string after its opening quote: the decoded text and what follows the
  closing quote. In strict mode a raw control character is an error.
\<close>

fun scan_string :: "string \<Rightarrow> error + (string \<times> string)" where
  "scan_string [] = Inl JSONDecodeError"
| "scan_string [c] = (if c = dquote then Inr ([], []) else Inl JSONDecodeError)"
| "scan_string (c # e # cs) =
     (if c = dquote then Inr ([], e # cs)
      else if c = backslash then
        (if e = CHR ''u'' then Inl Unmodelled
         else case unescape e of
                None \<Rightarrow> Inl JSONDecodeError
              | Some x \<Rightarrow>
                  (case scan_string cs of
                     Inl err \<Rightarrow> Inl err
                   | Inr (str, rest) \<Rightarrow> Inr (x # str, rest)))
      else if (of_char c :: nat) < 32 then Inl JSONDecodeError
      else (case scan_string (e # cs) of
              Inl err \<Rightarrow> Inl err
            | Inr (str, rest) \<Rightarrow> Inr (c # str, rest)))"

definition is_digit :: "char \<Rightarrow> bool" where
  "is_digit c \<longleftrightarrow> (48 :: nat) \<le> of_char c \<and> (of_char c :: nat) \<le> 57"

definition int_of_digits :: "string \<Rightarrow> int" where
  "int_of_digits ds = foldl (\<lambda>a c. 10 * a + (of_char c - 48)) 0 ds"

text \<open>The integer part \<^verbatim>\<open>0|[1-9][0-9]*\<close> at the head of a text.\<close>

definition int_part :: "string \<Rightarrow> string" where
  "int_part r =
     (case r of
        [] \<Rightarrow> []
      | c # r' \<Rightarrow> if c = CHR ''0'' then [c] else takeWhile is_digit r)"

text \<open>Whether a fraction \<^verbatim>\<open>\.[0-9]+\<close> or an exponent \<^verbatim>\<open>[eE][-+]?[0-9]+\<close> follows.\<close>

definition float_follows :: "string \<Rightarrow> bool" where
  "float_follows rest =
     (case rest of
        c # d # after \<Rightarrow>
          (c = CHR ''.'' \<and> is_digit d) \<or>
          ((c = CHR ''e'' \<or> c = CHR ''E'') \<and>
             (is_digit d \<or>
              ((d = CHR ''+'' \<or> d = CHR ''-'') \<and> (case after of [] \<Rightarrow> False | x # _ \<Rightarrow> is_digit x))))
      | _ \<Rightarrow> False)"

definition scan_number :: "string \<Rightarrow> error + (json \<times> string)" where
  "scan_number s =
     (let negative = starts_with ''-'' s;
          r = (if negative then drop 1 s else s);
          ds = int_part r;
          rest = drop (length ds) r
      in if ds = [] then
           (if starts_with ''NaN'' s \<or> starts_with ''Infinity'' s \<or> starts_with ''-Infinity'' s
            then Inl Unmodelled else Inl JSONDecodeError)
         else if float_follows rest \<or> 4300 < length ds then Inl Unmodelled
         else Inr (JInt (if negative then - int_of_digits ds else int_of_digits ds), rest))"

text \<open>\<^verbatim>\<open>d[k] = v\<close> on a dictionary kept in insertion order.\<close>

fun dict_set :: "string \<Rightarrow> json \<Rightarrow> (string \<times> json) list \<Rightarrow> (string \<times> json) list" where
  "dict_set k v [] = [(k, v)]"
| "dict_set k v (p # ps) = (if fst p = k then (k, v) # ps else p # dict_set k v ps)"

text \<open>
  \<open>parse_value\<close> reads one value at the head of the text; \<open>parse_members\<close> reads the
  members of an object from a key on, \<open>parse_elements\<close> the elements of an array from a
  value on. The first argument is the fuel, the second the nesting depth still allowed.
\<close>

fun parse_value :: "nat \<Rightarrow> nat \<Rightarrow> string \<Rightarrow> error + (json \<times> string)"
  and parse_members ::
    "nat \<Rightarrow> nat \<Rightarrow> (string \<times> json) list \<Rightarrow> string \<Rightarrow> error + (json \<times> string)"
  and parse_elements ::
    "nat \<Rightarrow> nat \<Rightarrow> json list \<Rightarrow> string \<Rightarrow> error + (json \<times> string)"
where
  "parse_value 0 d s = Inl OutOfFuel"
| "parse_value (Suc n) d [] = Inl JSONDecodeError"
| "parse_value (Suc n) d (c # cs) =
     (if c = dquote then
        (case scan_string cs of
           Inl err \<Rightarrow> Inl err
         | Inr (str, rest) \<Rightarrow> Inr (JString str, rest))
      else if c = CHR ''{'' then
        (case skip_ws cs of
           [] \<Rightarrow> Inl JSONDecodeError
         | x # xs \<Rightarrow>
             if x = CHR ''}'' then Inr (JObject [], xs)
             else if d = 0 then Inl Unmodelled
             else parse_members n (d - 1) [] (x # xs))
      else if c = CHR ''['' then
        (case skip_ws cs of
           [] \<Rightarrow> Inl JSONDecodeError
         | x # xs \<Rightarrow>
             if x = CHR '']'' then Inr (JArray [], xs)
             else if d = 0 then Inl Unmodelled
             else parse_elements n (d - 1) [] (x # xs))
      else if starts_with ''null'' (c # cs) then Inr (JNull, drop 4 (c # cs))
      else if starts_with ''true'' (c # cs) then Inr (JBool True, drop 4 (c # cs))
      else if starts_with ''false'' (c # cs) then Inr (JBool False, drop 5 (c # cs))
      else scan_number (c # cs))"
| "parse_members 0 d acc s = Inl OutOfFuel"
| "parse_members (Suc n) d acc [] = Inl JSONDecodeError"
| "parse_members (Suc n) d acc (c # cs) =
     (if c \<noteq> dquote then Inl JSONDecodeError
      else case scan_string cs of
             Inl err \<Rightarrow> Inl err
           | Inr (key, r1) \<Rightarrow>
               (case skip_ws r1 of
                  [] \<Rightarrow> Inl JSONDecodeError
                | colon # r2 \<Rightarrow>
                    if colon \<noteq> CHR '':'' then Inl JSONDecodeError
                    else case parse_value n d (skip_ws r2) of
                           Inl err \<Rightarrow> Inl err
                         | Inr (v, r3) \<Rightarrow>
                             (case skip_ws r3 of
                                [] \<Rightarrow> Inl JSONDecodeError
                              | x # r4 \<Rightarrow>
                                  if x = CHR ''}'' then Inr (JObject (dict_set key v acc), r4)
                                  else if x = CHR '','' then
                                    parse_members n d (dict_set key v acc) (skip_ws r4)
                                  else Inl JSONDecodeError)))"
| "parse_elements 0 d acc s = Inl OutOfFuel"
| "parse_elements (Suc n) d acc s =
     (case parse_value n d s of
        Inl err \<Rightarrow> Inl err
      | Inr (v, r1) \<Rightarrow>
          (case skip_ws r1 of
             [] \<Rightarrow> Inl JSONDecodeError
           | x # r2 \<Rightarrow>
               if x = CHR '']'' then Inr (JArray (acc @ [v]), r2)
               else if x = CHR '','' then parse_elements n d (acc @ [v]) (skip_ws r2)
               else Inl JSONDecodeError))"

definition json_loads :: "string \<Rightarrow> error + json" where
  "json_loads s =
     (case parse_value (2 * length s + 2) 100 (skip_ws s) of
        Inl err \<Rightarrow> Inl err
      | Inr (v, rest) \<Rightarrow> if skip_ws rest = [] then Inr v else Inl JSONDecodeError)"


definition or_default :: "string option \<Rightarrow> string" where
  "or_default val = (case val of None \<Rightarrow> ''{}'' | Some v \<Rightarrow> if v = [] then ''{}'' else v)"



section \<open>Properties of the fan-out\<close>

lemma status_code_JSONResponse [simp]: "status_code (JSONResponse code c) = code"
  by (simp add: JSONResponse_def)

lemma content_JSONResponse [simp]: "content (JSONResponse code c) = c"
  by (simp add: JSONResponse_def)

lemma sse_clients_queue_put [simp]: "sse_clients (queue_put q m s) = sse_clients s"
  by (simp add: queue_put_def)

lemma fresh_queue_put [simp]: "fresh (queue_put q m s) = fresh s"
  by (simp add: queue_put_def)

lemma queues_queue_put:
  "queues (queue_put q m s) q' = (if q' = q then queues s q' @ [m] else queues s q')"
  by (simp add: queue_put_def)

lemma sse_clients_put_all [simp]: "sse_clients (put_all qs m s) = sse_clients s"
  unfolding put_all_def by (induction qs arbitrary: s) simp_all

lemma fresh_put_all [simp]: "fresh (put_all qs m s) = fresh s"
  unfolding put_all_def by (induction qs arbitrary: s) simp_all

lemma queues_put_all:
  "queues (put_all qs m s) q = queues s q @ replicate (count_list qs q) m"
  unfolding put_all_def
proof (induction qs arbitrary: s)
  case Nil
  then show ?case by simp
next
  case (Cons a qs)
  show ?case
    by (simp add: Cons.IH queues_queue_put replicate_append_same)
qed

lemma count_list_distinct:
  "distinct qs \<Longrightarrow> count_list qs q = (if q \<in> set qs then 1 else 0)"
  by (induction qs) auto

lemma queues_put_all_distinct:
  "distinct qs \<Longrightarrow> queues (put_all qs m s) q = (if q \<in> set qs then queues s q @ [m] else queues s q)"
  by (simp add: queues_put_all count_list_distinct)

lemma sse_clients_on_entry [simp]: "sse_clients (on_entry m s) = sse_clients s"
  by (simp add: on_entry_def)

lemma fresh_on_entry [simp]: "fresh (on_entry m s) = fresh s"
  by (simp add: on_entry_def)

lemma sse_clients_broadcast [simp]: "sse_clients (broadcast p s) = sse_clients s"
  by (simp add: broadcast_def)

lemma fresh_broadcast [simp]: "fresh (broadcast p s) = fresh s"
  by (simp add: broadcast_def)

lemma sse_clients_command [simp]:
  "sse_clients (snd (send_webcontrol_command c s)) = sse_clients s"
  by (simp add: send_webcontrol_command_def Let_def)

lemma fresh_command [simp]: "fresh (snd (send_webcontrol_command c s)) = fresh s"
  by (simp add: send_webcontrol_command_def Let_def)

lemma queues_unregistered_put_all:
  "q \<notin> set qs \<Longrightarrow> queues (put_all qs m s) q = queues s q"
  by (simp add: queues_put_all)

lemma queues_unregistered_on_entry:
  "q \<notin> set (sse_clients s) \<Longrightarrow> queues (on_entry m s) q = queues s q"
  by (simp add: on_entry_def queues_unregistered_put_all)

lemma queues_unregistered_command:
  "q \<notin> set (sse_clients s) \<Longrightarrow> queues (snd (send_webcontrol_command c s)) q = queues s q"
  by (simp add: send_webcontrol_command_def Let_def broadcast_def queues_unregistered_put_all)

lemma inv_init: "registry_inv init_system"
  by (simp add: registry_inv_def init_system_def init_server_def live_def)

lemma live_fresh: "registry_inv st \<Longrightarrow> fresh (srv st) \<le> q \<Longrightarrow> q \<notin> set (sse_clients (srv st))"
  by (simp add: registry_inv_def live_def)

lemma inv_connect: "registry_inv st \<Longrightarrow> registry_inv (step Connect st)"
  unfolding registry_inv_def
  by (auto simp: stream_events_def Let_def live_def split: option.splits phase.splits)

lemma inv_command: "registry_inv st \<Longrightarrow> registry_inv (step (Command c) st)"
  unfolding registry_inv_def
  by (auto simp: live_def queues_unregistered_command)

lemma inv_upstream: "registry_inv st \<Longrightarrow> registry_inv (step (Upstream m) st)"
  unfolding registry_inv_def
  by (auto simp: live_def queues_unregistered_on_entry)

lemma run_finally_registered:
  "q \<in> set (sse_clients s) \<Longrightarrow>
   run_finally q out s = (Finished out, s\<lparr>sse_clients := remove1 q (sse_clients s)\<rparr>)"
  by (simp add: run_finally_def sse_clients_remove_def)

lemma live_registered: "registry_inv st \<Longrightarrow> live st q \<Longrightarrow> q \<in> set (sse_clients (srv st))"
  by (simp add: registry_inv_def)

lemma inv_finally:
  assumes inv: "registry_inv st" and ph: "phase_of st q = Some ph" and lv: "\<forall>out. ph \<noteq> Finished out"
    and out: "out \<noteq> Abandoned"
  shows "registry_inv \<lparr>srv = (srv st)\<lparr>sse_clients := remove1 q (sse_clients (srv st))\<rparr>,
                        phase_of = (phase_of st)(q \<mapsto> Finished out)\<rparr>"
  using assms unfolding registry_inv_def
  by (auto simp: live_def split: option.splits phase.splits)

lemma inv_phase:
  assumes inv: "registry_inv st" and ph: "phase_of st q = Some ph"
    and lv: "\<forall>out. ph \<noteq> Finished out" and lv': "\<forall>out. ph' \<noteq> Finished out"
  shows "registry_inv \<lparr>srv = srv st, phase_of = (phase_of st)(q \<mapsto> ph')\<rparr>"
  using assms unfolding registry_inv_def
  by (auto simp: live_def split: option.splits phase.splits)

lemma inv_abandon:
  assumes inv: "registry_inv st" and ph: "phase_of st q = Some Created"
  shows "registry_inv \<lparr>srv = srv st, phase_of = (phase_of st)(q \<mapsto> Finished Abandoned)\<rparr>"
  using assms unfolding registry_inv_def
  by (auto simp: live_def split: option.splits phase.splits)

lemma inv_same:
  assumes inv: "registry_inv st" and ph: "phase_of st q = Some ph"
  shows "registry_inv \<lparr>srv = srv st, phase_of = (phase_of st)(q \<mapsto> ph)\<rparr>"
proof -
  have "(phase_of st)(q \<mapsto> ph) = phase_of st" using ph by auto
  then have "\<lparr>srv = srv st, phase_of = (phase_of st)(q \<mapsto> ph)\<rparr> = st" by simp
  then show ?thesis using inv by simp
qed

lemma inv_get:
  assumes inv: "registry_inv st" and ph: "phase_of st q = Some Getting"
  shows "registry_inv \<lparr>srv = (srv st)\<lparr>queues := (queues (srv st))(q := ms)\<rparr>,
                        phase_of = (phase_of st)(q \<mapsto> Yielded m)\<rparr>"
  using assms unfolding registry_inv_def
  by (auto simp: live_def split: option.splits phase.splits)

lemma inv_session: 
  assumes inv: "registry_inv st"
  shows "registry_inv (step (Session q ev) st)"
proof (cases "phase_of st q")
  case None
  then show ?thesis using inv by simp
next
  case (Some ph)
  have reg: "\<forall>out. ph \<noteq> Finished out \<Longrightarrow> q \<in> set (sse_clients (srv st))"
    using inv Some by (auto simp: registry_inv_def live_def split: phase.splits)
  show ?thesis
  proof (cases "(q, ev, ph, srv st)" rule: event_generator.cases)
    case (1 queue s)
    then show ?thesis using Some inv_phase[OF inv Some, of Probing] by simp
  next
    case (2 queue msg s)
    then show ?thesis using Some inv_phase[OF inv Some, of Probing] by simp
  next
    case (3 queue disconnected s)
    then show ?thesis
      using Some inv_phase[OF inv Some, of Getting] inv_finally[OF inv Some, of Completed] reg
      by (simp add: run_finally_registered)
  next
    case (4 queue s)
    then show ?thesis
      using Some inv_finally[OF inv Some, of "Raised TransportError"] reg
      by (simp add: run_finally_registered)
  next
    case (5 queue s)
    then show ?thesis
      using Some inv_same[OF inv Some] inv_get[OF inv]
      by (auto simp: queue_get_def split: list.splits)
  next
    case (6 queue s)
    then show ?thesis
      using Some inv_finally[OF inv Some, of Cancelled] reg
      by (simp add: run_finally_registered)
  next
    case (7 queue s)
    then show ?thesis
      using Some inv_finally[OF inv Some, of Cancelled] reg
      by (simp add: run_finally_registered)
  next
    case (8 queue msg s)
    then show ?thesis
      using Some inv_finally[OF inv Some, of Closed] reg
      by (simp add: run_finally_registered)
  next
    case (9 queue s)
    then show ?thesis using Some inv_abandon[OF inv] by simp
  next
    case (10 queue s)
    then show ?thesis using Some inv_abandon[OF inv] by simp
  qed (use Some inv_same[OF inv Some] in simp_all)
qed

lemma inv_step: "registry_inv st \<Longrightarrow> registry_inv (step e st)"
  by (cases e) (simp_all only: inv_connect inv_session inv_command inv_upstream)

lemma inv_run: "registry_inv st \<Longrightarrow> registry_inv (run evs st)"
  unfolding run_def by (induction evs arbitrary: st) (simp_all add: inv_step)

lemma reachable_inv: "registry_inv (run evs init_system)"
  by (rule inv_run [OF inv_init])

lemma json_dumps_command:
  assumes "command \<in> valid_commands"
  shows \<open>json_dumps (JObject [(''type'', JString ''webcontrol''), (''command'', JString command)])
         = ''{"type": "webcontrol", "command": "'' @ command @ ''"}''\<close>
proof -
  have pp: \<open>json_dumps (JObject [(''type'', JString ''webcontrol''), (''command'', JString ''pp'')])
         = ''{"type": "webcontrol", "command": "'' @ ''pp'' @ ''"}''\<close>
    by code_simp
  have fwd: \<open>json_dumps (JObject [(''type'', JString ''webcontrol''), (''command'', JString ''fwd'')])
         = ''{"type": "webcontrol", "command": "'' @ ''fwd'' @ ''"}''\<close>
    by code_simp
  have rew: \<open>json_dumps (JObject [(''type'', JString ''webcontrol''), (''command'', JString ''rew'')])
         = ''{"type": "webcontrol", "command": "'' @ ''rew'' @ ''"}''\<close>
    by code_simp
  have out: \<open>json_dumps (JObject [(''type'', JString ''webcontrol''), (''command'', JString ''out'')])
         = ''{"type": "webcontrol", "command": "'' @ ''out'' @ ''"}''\<close>
    by code_simp
  from assms consider "command = ''pp''" | "command = ''fwd''" | "command = ''rew''" | "command = ''out''"
    unfolding valid_commands_def by blast
  then show ?thesis
    using pp fwd rew out by cases (simp_all only:)
qed

lemma reachable_distinct: "distinct (sse_clients (srv (run evs init_system)))"
  using reachable_inv [of evs] by (simp add: registry_inv_def)

lemma run_append: "run (xs @ ys) st = run ys (run xs st)"
  by (simp add: run_def)

lemma run_Nil [simp]: "run [] st = st"
  by (simp add: run_def)

lemma run_Cons: "run (e # es) st = run es (step e st)"
  by (simp add: run_def)

lemma reachable_registered:
  "q \<in> set (sse_clients (srv (run evs init_system))) \<longleftrightarrow>
     live (run evs init_system) q \<or> phase_of (run evs init_system) q = Some (Finished Abandoned)"
  using reachable_inv [of evs] by (simp add: registry_inv_def)

lemma queues_broadcast:
  "queues (broadcast payload s) q =
     queues s q @ replicate (count_list (sse_clients s) q) (json_dumps payload)"
  by (simp add: broadcast_def queues_put_all)

lemma queues_broadcast_distinct:
  "distinct (sse_clients s) \<Longrightarrow>
   queues (broadcast payload s) q =
     (if q \<in> set (sse_clients s) then queues s q @ [json_dumps payload] else queues s q)"
  by (simp add: broadcast_def queues_put_all_distinct)

lemma connects:
  "srv (run (replicate n Connect) init_system) =
     \<lparr>sse_clients = [0..<n], queues = (\<lambda>_. []), fresh = n\<rparr>"
proof (induction n)
  case 0
  then show ?case by (simp add: init_system_def init_server_def)
next
  case (Suc n)
  have "replicate (Suc n) Connect = replicate n Connect @ [Connect]"
    by (simp add: replicate_append_same)
  then have "run (replicate (Suc n) Connect) init_system =
      step Connect (run (replicate n Connect) init_system)"
    by (simp only: run_append run_Cons run_Nil)
  then show ?case
    by (simp add: Suc.IH stream_events_def Let_def fun_upd_idem_iff split: prod.splits)
qed

lemma one_client:
  "srv (run [Connect] init_system) = \<lparr>sse_clients = [0], queues = (\<lambda>_. []), fresh = 1\<rparr>"
  using connects [of 1] by simp

lemma two_clients:
  "srv (run [Connect, Connect] init_system) =
     \<lparr>sse_clients = [0, 1], queues = (\<lambda>_. []), fresh = 2\<rparr>"
  using connects [of 2] by (simp add: numeral_2_eq_2)

lemma live_Some: "phase_of st q = Some ph \<Longrightarrow> live st q \<longleftrightarrow> (\<forall>out. ph \<noteq> Finished out)"
  by (cases ph) (simp_all add: live_def)

lemma finishes_withI:
  assumes inv: "registry_inv st" and ph: "phase_of st q = Some ph"
    and lv: "\<forall>out. ph \<noteq> Finished out"
    and ev: "event_generator q ev ph (srv st) = run_finally q out (srv st)"
  shows "finishes_with st q ev out"
proof -
  have reg: "q \<in> set (sse_clients (srv st))"
    using inv ph lv by (simp add: registry_inv_def live_Some)
  have d: "distinct (sse_clients (srv st))"
    using inv by (simp add: registry_inv_def)
  show ?thesis
    using ph ev reg d by (simp add: finishes_with_def run_finally_registered)
qed

lemma exit_paths:
  assumes inv: "registry_inv st"
  shows "(phase_of st q = Some Probing \<longrightarrow>
            finishes_with st q (Probe True) Completed \<and>
            finishes_with st q ProbeFails (Raised TransportError) \<and>
            finishes_with st q Cancel Cancelled) \<and>
         (phase_of st q = Some Getting \<longrightarrow> finishes_with st q Cancel Cancelled) \<and>
         (phase_of st q = Some (Yielded msg) \<longrightarrow> finishes_with st q Close Closed)"
  by (auto intro!: finishes_withI [OF inv])

lemma connect_registers:
  assumes inv: "registry_inv st"
  shows "phase_of (step Connect st) (fresh (srv st)) = Some Created \<and>
         sse_clients (srv (step Connect st)) = sse_clients (srv st) @ [fresh (srv st)] \<and>
         fresh (srv st) \<notin> set (sse_clients (srv st))"
  using live_fresh [OF inv, of "fresh (srv st)"]
  by (simp add: stream_events_def Let_def)

lemma no_value_error_step:
  assumes inv: "registry_inv st"
    and ok: "\<forall>q. phase_of st q \<noteq> Some (Finished (Raised ValueError))"
  shows "phase_of (step e st) q \<noteq> Some (Finished (Raised ValueError))"
proof (cases e)
  case Connect
  then show ?thesis using ok by (simp add: stream_events_def Let_def)
next
  case (Session q' ev)
  show ?thesis
  proof (cases "phase_of st q'")
    case None
    then show ?thesis using Session ok by simp
  next
    case (Some ph)
    have reg: "\<forall>out. ph \<noteq> Finished out \<Longrightarrow> q' \<in> set (sse_clients (srv st))"
      using inv Some by (simp add: registry_inv_def live_Some)
    have same: "q \<noteq> q' \<Longrightarrow> ?thesis"
      using Session Some ok by (simp split: prod.splits)
    have "fst (event_generator q' ev ph (srv st)) \<noteq> Finished (Raised ValueError)"
    proof (cases "(q', ev, ph, srv st)" rule: event_generator.cases)
      case (5 queue s)
      then show ?thesis by (simp add: queue_get_def split: list.splits)
    qed (use Some ok reg in \<open>auto simp: run_finally_registered\<close>)
    then have "q = q' \<Longrightarrow> ?thesis"
      using Session Some by (auto split: prod.splits)
    with same show ?thesis by blast
  qed
next
  case (Command c)
  then show ?thesis using ok by simp
next
  case (Upstream m)
  then show ?thesis using ok by simp
qed

lemma no_value_error_run:
  "registry_inv st \<Longrightarrow> \<forall>q. phase_of st q \<noteq> Some (Finished (Raised ValueError)) \<Longrightarrow>
   phase_of (run evs st) q \<noteq> Some (Finished (Raised ValueError))"
proof (induction evs arbitrary: st q)
  case Nil
  then show ?case by simp
next
  case (Cons e evs)
  have "registry_inv (step e st)" using Cons.prems(1) by (rule inv_step)
  moreover have "\<forall>q. phase_of (step e st) q \<noteq> Some (Finished (Raised ValueError))"
    using no_value_error_step [OF Cons.prems] by blast
  ultimately show ?case using Cons.IH by (simp add: run_Cons)
qed

lemma reachable_no_value_error:
  "phase_of (run evs init_system) q \<noteq> Some (Finished (Raised ValueError))"
  by (rule no_value_error_run [OF inv_init]) (simp add: init_system_def)

lemmas run_eval = run_Cons run_Nil step.simps stream_events_def init_system_def init_server_def
  Let_def event_generator.simps run_finally_def sse_clients_remove_def queue_get_def
  on_entry_def put_all_def queue_put_def fun_upd_idem_iff

lemma queues_event_generator:
  "queues (snd (event_generator q' ev ph s)) q =
     (if q = q' \<and> ev = Wake \<and> ph = Getting then drop 1 (queues s q) else queues s q)"
proof (cases "(q', ev, ph, s)" rule: event_generator.cases)
  case (5 queue s)
  then show ?thesis by (simp add: queue_get_def drop_Suc split: list.splits)
qed (auto simp: run_finally_def sse_clients_remove_def)

lemma fifo_step:
  assumes inv: "registry_inv st"
  shows "(if e = Session q Wake \<and> phase_of st q = Some Getting
          then take 1 (queues (srv st) q) else []) @ queues (srv (step e st)) q
         = queues (srv st) q @ (if q \<in> set (sse_clients (srv st)) then produced e else [])"
proof (cases e)
  case Connect
  have "fresh (srv st) = q \<Longrightarrow> queues (srv st) q = []"
    using inv by (simp add: registry_inv_def)
  then show ?thesis
    using Connect by (auto simp: produced_def stream_events_def Let_def)
next
  case (Session q' ev)
  show ?thesis
  proof (cases "phase_of st q'")
    case None
    then show ?thesis using Session by (auto simp: produced_def)
  next
    case (Some ph)
    have "queues (srv (step e st)) q = queues (snd (event_generator q' ev ph (srv st))) q"
      using Session Some by (simp split: prod.splits)
    then show ?thesis
      using Session Some by (auto simp: produced_def queues_event_generator)
  qed
next
  case (Command c)
  have d: "distinct (sse_clients (srv st))"
    using inv by (simp add: registry_inv_def)
  show ?thesis
    using Command
    by (simp add: produced_def send_webcontrol_command_def Let_def queues_broadcast_distinct [OF d])
next
  case (Upstream m)
  have d: "distinct (sse_clients (srv st))"
    using inv by (simp add: registry_inv_def)
  show ?thesis
    using Upstream
    by (simp add: produced_def on_entry_def Let_def queues_put_all_distinct [OF d])
qed

lemma fifo_run:
  "registry_inv st \<Longrightarrow>
   yielded q evs st @ queues (srv (run evs st)) q = queues (srv st) q @ offered q evs st"
proof (induction evs arbitrary: st)
  case Nil
  then show ?case by simp
next
  case (Cons e evs)
  have "yielded q (e # evs) st @ queues (srv (run (e # evs) st)) q
      = (if e = Session q Wake \<and> phase_of st q = Some Getting
          then take 1 (queues (srv st) q) else [])
        @ (yielded q evs (step e st) @ queues (srv (run evs (step e st))) q)"
    by (simp add: run_Cons)
  also have "\<dots> = (if e = Session q Wake \<and> phase_of st q = Some Getting
          then take 1 (queues (srv st) q) else [])
        @ (queues (srv (step e st)) q @ offered q evs (step e st))"
    using Cons.IH [OF inv_step [OF Cons.prems]] by simp
  also have "\<dots> = (queues (srv st) q @ (if q \<in> set (sse_clients (srv st)) then produced e else []))
        @ offered q evs (step e st)"
    using fifo_step [OF Cons.prems, of e q] by (simp only: append_assoc [symmetric])
  finally show ?case by simp
qed

lemma listen_loop_entries: "listen_loop (map Entry ms) s = (None, fold on_entry ms s)"
  by (induction ms arbitrary: s) simp_all

lemma listen_loop_failure:
  "listen_loop (map Entry ms @ Failure # rest) s = (Some ConnectionError, fold on_entry ms s)"
  by (induction ms arbitrary: s) simp_all

lemma sse_clients_fold_on_entry [simp]: "sse_clients (fold on_entry ms s) = sse_clients s"
  by (induction ms arbitrary: s) simp_all

lemma queues_on_entry:
  "distinct (sse_clients s) \<Longrightarrow>
   queues (on_entry m s) q =
     (if q \<in> set (sse_clients s) \<and> msg_type m = ''message''
      then queues s q @ [msg_data m] else queues s q)"
  by (simp add: on_entry_def queues_put_all_distinct)

lemma queues_fold_on_entry:
  "distinct (sse_clients s) \<Longrightarrow>
   queues (fold on_entry ms s) q =
     (if q \<in> set (sse_clients s)
      then queues s q @ map msg_data (filter (\<lambda>m. msg_type m = ''message'') ms)
      else queues s q)"
  by (induction ms arbitrary: s) (simp_all add: queues_on_entry)

lemma length_escape_char: "1 \<le> length (escape_char ea c)"
  by (simp add: escape_char_def short_escape_def u_escape_def split: option.splits)

lemma length_escaped: "length s \<le> length (concat (map (escape_char ea) s))"
proof (induction s)
  case Nil
  then show ?case by simp
next
  case (Cons c s)
  then show ?case using length_escape_char [of ea c] by simp
qed

lemma json_dumps_string_longer: "length d < length (json_dumps (JString d))"
  using length_escaped [of d True] by (simp add: json_dumps_def encode_basestring_def)

subsection \<open>The JSON parser consumes its input and never runs out of fuel\<close>

lemma length_skip_ws: "length (skip_ws s) \<le> length s"
  by (simp add: skip_ws_def length_dropWhile_le)

lemma skip_ws_Cons: "skip_ws s = x # xs \<Longrightarrow> length xs < length s"
  using length_skip_ws [of s] by simp

lemma scan_string_shorter: "scan_string cs = Inr (str, r) \<Longrightarrow> length r < length cs"
proof (induction cs arbitrary: str r rule: scan_string.induct)
  case 1
  then show ?case by simp
next
  case (2 c)
  then show ?case by (simp split: if_splits)
next
  case (3 c e cs)
  then show ?case
    by (fastforce split: if_splits option.splits sum.splits prod.splits)
qed

lemma length_int_part: "length (int_part r) \<le> length r"
  by (cases r) (simp_all add: int_part_def length_takeWhile_le)

lemma scan_number_shorter: "scan_number s = Inr (v, r) \<Longrightarrow> length r < length s"
proof -
  assume a: "scan_number s = Inr (v, r)"
  define r0 where "r0 = (if starts_with ''-'' s then drop 1 s else s)"
  have ne: "int_part r0 \<noteq> []" and r: "r = drop (length (int_part r0)) r0"
    using a by (auto simp: scan_number_def Let_def r0_def split: if_splits)
  have "length r0 \<le> length s" by (simp add: r0_def)
  moreover have "0 < length (int_part r0)" using ne by simp
  moreover note length_int_part [of r0]
  ultimately have "length r0 - length (int_part r0) < length s" by linarith
  then show ?thesis using r by simp
qed

lemma parse_shorter:
  "(\<forall>v r. parse_value n d s = Inr (v, r) \<longrightarrow> length r < length s)"
  "(\<forall>v r. parse_members n d acc s = Inr (v, r) \<longrightarrow> length r < length s)"
  "(\<forall>v r. parse_elements n d acc' s = Inr (v, r) \<longrightarrow> length r < length s)"
proof (induction n d s and n d acc s and n d acc' s
    rule: parse_value_parse_members_parse_elements.induct)
  case (1 d s)
  then show ?case by simp
next
  case (2 n d)
  then show ?case by simp
next
  case (3 n d c cs)
  show ?case
  proof (intro allI impI)
    fix v r
    assume a: "parse_value (Suc n) d (c # cs) = Inr (v, r)"
    consider (str) "c = dquote"
      | (obj) "c \<noteq> dquote" "c = CHR ''{''"
      | (arr) "c \<noteq> dquote" "c \<noteq> CHR ''{''" "c = CHR ''[''"
      | (other) "c \<noteq> dquote" "c \<noteq> CHR ''{''" "c \<noteq> CHR ''[''"
      by blast
    then show "length r < length (c # cs)"
    proof cases
      case str
      then show ?thesis
        using a scan_string_shorter [of cs]
        by (auto split: sum.splits prod.splits)
    next
      case obj
      show ?thesis
      proof (cases "skip_ws cs")
        case Nil
        then show ?thesis using a obj by simp
      next
        case (Cons x xs)
        have l: "length xs < length cs" using Cons by (rule skip_ws_Cons)
        show ?thesis
        proof (cases "x = CHR ''}''")
          case True
          then show ?thesis using a obj Cons l by simp
        next
          case False
          then have "d \<noteq> 0" and "parse_members n (d - 1) [] (x # xs) = Inr (v, r)"
            using a obj Cons by (auto split: if_splits)
          then have "length r < length (x # xs)"
            using "3.IH"(1) [OF obj(1) obj(2) Cons False] by simp
          then show ?thesis using l by simp
        qed
      qed
    next
      case arr
      show ?thesis
      proof (cases "skip_ws cs")
        case Nil
        then show ?thesis using a arr by simp
      next
        case (Cons x xs)
        have l: "length xs < length cs" using Cons by (rule skip_ws_Cons)
        show ?thesis
        proof (cases "x = CHR '']''")
          case True
          then show ?thesis using a arr Cons l by simp
        next
          case False
          then have "d \<noteq> 0" and "parse_elements n (d - 1) [] (x # xs) = Inr (v, r)"
            using a arr Cons by (auto split: if_splits)
          then have "length r < length (x # xs)"
            using "3.IH"(2) [OF arr(1) arr(2) arr(3) Cons False] by simp
          then show ?thesis using l by simp
        qed
      qed
    next
      case other
      then show ?thesis
        using a scan_number_shorter [of "c # cs" v r]
        by (auto split: if_splits)
    qed
  qed
next
  case (4 d acc s)
  then show ?case by simp
next
  case (5 n d acc)
  then show ?case by simp
next
  case (6 n d acc c cs)
  show ?case
  proof (intro allI impI)
    fix v r
    assume a: "parse_members (Suc n) d acc (c # cs) = Inr (v, r)"
    then have c: "c = dquote" by (auto split: if_splits)
    from a c obtain key r1 where s: "scan_string cs = Inr (key, r1)"
      by (auto split: sum.splits)
    from a c s obtain r2 where w1: "skip_ws r1 = CHR '':'' # r2"
      by (auto split: list.splits if_splits)
    from a c s w1 obtain v1 r3 where p: "parse_value n d (skip_ws r2) = Inr (v1, r3)"
      by (auto split: sum.splits)
    from a c s w1 p obtain x r4 where w3: "skip_ws r3 = x # r4"
      by (auto split: list.splits)
    have l1: "length r1 < length cs" using s by (rule scan_string_shorter)
    have l2: "length r2 < length r1" using w1 by (rule skip_ws_Cons)
    have "length r3 < length (skip_ws r2)"
      using "6.IH"(1) p c s w1 by (auto simp del: parse_value.simps)
    then have l3: "length r3 < length r2" using length_skip_ws [of r2] by simp
    have l4: "length r4 < length r3" using w3 by (rule skip_ws_Cons)
    show "length r < length (c # cs)"
    proof (cases "x = CHR ''}''")
      case True
      then show ?thesis using a c s w1 p w3 l1 l2 l3 l4 by simp
    next
      case False
      then have x: "x = CHR '',''"
        and m: "parse_members n d (dict_set key v1 acc) (skip_ws r4) = Inr (v, r)"
        using a c s w1 p w3 by (auto split: if_splits)
      have "length r < length (skip_ws r4)"
        using "6.IH"(2) m c s w1 p w3 False x by (auto simp del: parse_members.simps)
      then show ?thesis using length_skip_ws [of r4] l1 l2 l3 l4 by simp
    qed
  qed
next
  case (7 d acc s)
  then show ?case by simp
next
  case (8 n d acc s)
  show ?case
  proof (intro allI impI)
    fix v r
    assume a: "parse_elements (Suc n) d acc s = Inr (v, r)"
    from a obtain v1 r1 where p: "parse_value n d s = Inr (v1, r1)"
      by (auto split: sum.splits)
    from a p obtain x r2 where w: "skip_ws r1 = x # r2"
      by (auto split: list.splits)
    have l1: "length r1 < length s" using "8.IH"(1) p by simp
    have l2: "length r2 < length r1" using w by (rule skip_ws_Cons)
    show "length r < length s"
    proof (cases "x = CHR '']''")
      case True
      then show ?thesis using a p w l1 l2 by simp
    next
      case False
      then have x: "x = CHR '',''"
        and m: "parse_elements n d (acc @ [v1]) (skip_ws r2) = Inr (v, r)"
        using a p w by (auto split: if_splits)
      have "length r < length (skip_ws r2)"
        using "8.IH"(2) m p w False x by (auto simp del: parse_elements.simps)
      then show ?thesis using length_skip_ws [of r2] l1 l2 by simp
    qed
  qed
qed

lemma scan_string_fuel: "scan_string cs \<noteq> Inl OutOfFuel"
proof (induction cs rule: scan_string.induct)
  case 1
  then show ?case by simp
next
  case (2 c)
  then show ?case by simp
next
  case (3 c e cs)
  then show ?case
    by (auto split: option.splits sum.splits prod.splits)
qed

lemma scan_number_fuel: "scan_number s \<noteq> Inl OutOfFuel"
  by (simp add: scan_number_def Let_def)

lemma parse_fuel:
  "2 * length s < n \<longrightarrow> parse_value n d s \<noteq> Inl OutOfFuel"
  "2 * length s < n \<longrightarrow> parse_members n d acc s \<noteq> Inl OutOfFuel"
  "2 * length s + 1 < n \<longrightarrow> parse_elements n d acc' s \<noteq> Inl OutOfFuel"
proof (induction n d s and n d acc s and n d acc' s
    rule: parse_value_parse_members_parse_elements.induct)
  case (1 d s)
  then show ?case by simp
next
  case (2 n d)
  then show ?case by simp
next
  case (3 n d c cs)
  show ?case
  proof (intro impI)
    assume f: "2 * length (c # cs) < Suc n"
    consider (str) "c = dquote"
      | (obj) "c \<noteq> dquote" "c = CHR ''{''"
      | (arr) "c \<noteq> dquote" "c \<noteq> CHR ''{''" "c = CHR ''[''"
      | (other) "c \<noteq> dquote" "c \<noteq> CHR ''{''" "c \<noteq> CHR ''[''"
      by blast
    then show "parse_value (Suc n) d (c # cs) \<noteq> Inl OutOfFuel"
    proof cases
      case str
      then show ?thesis
        using scan_string_fuel [of cs] by (auto split: sum.splits prod.splits)
    next
      case obj
      show ?thesis
      proof (cases "skip_ws cs")
        case Nil
        then show ?thesis using obj by simp
      next
        case (Cons x xs)
        have l: "length xs < length cs" using Cons by (rule skip_ws_Cons)
        show ?thesis
        proof (cases "x = CHR ''}'' \<or> d = 0")
          case True
          then show ?thesis using obj Cons by auto
        next
          case False
          then have "parse_members n (d - 1) [] (x # xs) \<noteq> Inl OutOfFuel"
            using "3.IH"(1) [OF obj(1) obj(2) Cons] l f by simp
          then show ?thesis using obj Cons False by simp
        qed
      qed
    next
      case arr
      show ?thesis
      proof (cases "skip_ws cs")
        case Nil
        then show ?thesis using arr by simp
      next
        case (Cons x xs)
        have l: "length xs < length cs" using Cons by (rule skip_ws_Cons)
        show ?thesis
        proof (cases "x = CHR '']'' \<or> d = 0")
          case True
          then show ?thesis using arr Cons by auto
        next
          case False
          then have "parse_elements n (d - 1) [] (x # xs) \<noteq> Inl OutOfFuel"
            using "3.IH"(2) [OF arr(1) arr(2) arr(3) Cons] l f by simp
          then show ?thesis using arr Cons False by simp
        qed
      qed
    next
      case other
      then show ?thesis
        using scan_number_fuel [of "c # cs"] by simp
    qed
  qed
next
  case (4 d acc s)
  then show ?case by simp
next
  case (5 n d acc)
  then show ?case by simp
next
  case (6 n d acc c cs)
  show ?case
  proof (intro impI)
    assume f: "2 * length (c # cs) < Suc n"
    show "parse_members (Suc n) d acc (c # cs) \<noteq> Inl OutOfFuel"
    proof (cases "c = dquote")
      case False
      then show ?thesis by simp
    next
      case c: True
      show ?thesis
      proof (cases "scan_string cs")
        case (Inl err)
        then show ?thesis using c scan_string_fuel [of cs] by simp
      next
        case (Inr kr)
        obtain key r1 where s: "scan_string cs = Inr (key, r1)"
          using Inr by (cases kr) simp
        have l1: "length r1 < length cs" using s by (rule scan_string_shorter)
        show ?thesis
        proof (cases "skip_ws r1")
          case Nil
          then show ?thesis using c s by simp
        next
          case (Cons colon r2)
          have l2: "length r2 < length r1" using Cons by (rule skip_ws_Cons)
          show ?thesis
          proof (cases "colon = CHR '':''")
            case False
            then show ?thesis using c s Cons by simp
          next
            case colon: True
            have fv: "2 * length (skip_ws r2) < n"
              using length_skip_ws [of r2] l1 l2 f by simp
            have pv: "parse_value n d (skip_ws r2) \<noteq> Inl OutOfFuel"
              using "6.IH"(1) c s Cons colon fv by (auto simp del: parse_value.simps)
            show ?thesis
            proof (cases "parse_value n d (skip_ws r2)")
              case (Inl err)
              then show ?thesis using c s Cons colon pv by simp
            next
              case (Inr vr)
              obtain v1 r3 where p: "parse_value n d (skip_ws r2) = Inr (v1, r3)"
                using Inr by (cases vr) simp
              have l3: "length r3 < length (skip_ws r2)"
                using parse_shorter(1) p by blast
              show ?thesis
              proof (cases "skip_ws r3")
                case Nil
                then show ?thesis using c s Cons colon p by simp
              next
                case w3: (Cons x r4)
                have l4: "length r4 < length r3" using w3 by (rule skip_ws_Cons)
                show ?thesis
                proof (cases "x = CHR '',''")
                  case False
                  then show ?thesis using c s Cons colon p w3 by simp
                next
                  case True
                  have "2 * length (skip_ws r4) < n"
                    using length_skip_ws [of r4] l3 l4 fv by simp
                  then have "parse_members n d (dict_set key v1 acc) (skip_ws r4) \<noteq> Inl OutOfFuel"
                    using "6.IH"(2) c s Cons colon p w3 True
                    by (auto simp del: parse_members.simps)
                  then show ?thesis using c s Cons colon p w3 True by simp
                qed
              qed
            qed
          qed
        qed
      qed
    qed
  qed
next
  case (7 d acc s)
  then show ?case by simp
next
  case (8 n d acc s)
  show ?case
  proof (intro impI)
    assume f: "2 * length s + 1 < Suc n"
    then have fv: "2 * length s < n" by simp
    have pv: "parse_value n d s \<noteq> Inl OutOfFuel"
      using "8.IH"(1) fv by simp
    show "parse_elements (Suc n) d acc s \<noteq> Inl OutOfFuel"
    proof (cases "parse_value n d s")
      case (Inl err)
      then show ?thesis using pv by simp
    next
      case (Inr vr)
      obtain v1 r1 where p: "parse_value n d s = Inr (v1, r1)"
        using Inr by (cases vr) simp
      have l1: "length r1 < length s" using parse_shorter(1) p by blast
      show ?thesis
      proof (cases "skip_ws r1")
        case Nil
        then show ?thesis using p by simp
      next
        case (Cons x r2)
        have l2: "length r2 < length r1" using Cons by (rule skip_ws_Cons)
        show ?thesis
        proof (cases "x = CHR '',''")
          case False
          then show ?thesis using p Cons by simp
        next
          case True
          have "2 * length (skip_ws r2) + 1 < n"
            using length_skip_ws [of r2] l1 l2 fv by simp
          then have "parse_elements n d (acc @ [v1]) (skip_ws r2) \<noteq> Inl OutOfFuel"
            using "8.IH"(2) p Cons True by (auto simp del: parse_elements.simps)
          then show ?thesis using p Cons True by simp
        qed
      qed
    qed
  qed
qed

lemma json_loads_fuel: "json_loads s \<noteq> Inl OutOfFuel"
proof -
  have "2 * length (skip_ws s) < 2 * length s + 2"
    using length_skip_ws [of s] by simp
  then have "parse_value (2 * length s + 2) 100 (skip_ws s) \<noteq> Inl OutOfFuel"
    using parse_fuel(1) by blast
  then show ?thesis
    by (auto simp: json_loads_def split: sum.splits)
qed


lemma or_default_None [simp]: "or_default None = ''{}''"
  by (simp add: or_default_def)


text \<open>
  Sessions whose generator was started: in every reachable state the registry holds each
  queue at most once, and a queue is registered exactly when its session is live or was
  abandoned before its generator started. Connecting registers the new queue, and every
  way out of the \<open>try\<close> block takes the queue, and only it, out of the registry.
\<close>

lemma started_session_deregisters:
  assumes "st = run evs init_system"
  shows "distinct (sse_clients (srv st)) \<and>
         (\<forall>q. q \<in> set (sse_clients (srv st)) \<longleftrightarrow>
              live st q \<or> phase_of st q = Some (Finished Abandoned)) \<and>
         phase_of (step Connect st) (fresh (srv st)) = Some Created \<and>
         sse_clients (srv (step Connect st)) = sse_clients (srv st) @ [fresh (srv st)] \<and>
         (phase_of st q = Some Probing \<longrightarrow>
            finishes_with st q (Probe True) Completed \<and>
            finishes_with st q ProbeFails (Raised TransportError) \<and>
            finishes_with st q Cancel Cancelled) \<and>
         (phase_of st q = Some Getting \<longrightarrow> finishes_with st q Cancel Cancelled) \<and>
         (phase_of st q = Some (Yielded msg) \<longrightarrow> finishes_with st q Close Closed)"
proof -
  have inv: "registry_inv st"
    using assms reachable_inv by simp
  then have "distinct (sse_clients (srv st))"
    and "\<forall>q. q \<in> set (sse_clients (srv st)) \<longleftrightarrow>
              live st q \<or> phase_of st q = Some (Finished Abandoned)"
    by (simp_all add: registry_inv_def)
  with connect_registers [OF inv] exit_paths [OF inv, of q msg]
  show ?thesis by blast
qed

lemma finished_step:
  assumes inv: "registry_inv st" and ph: "phase_of st q = Some (Finished out)"
  shows "phase_of (step e st) q = Some (Finished out)"
proof (cases e)
  case Connect
  have "q \<noteq> fresh (srv st)"
    using inv ph by (auto simp: registry_inv_def)
  then show ?thesis using Connect ph by (simp add: stream_events_def Let_def)
next
  case (Session q' ev)
  show ?thesis
  proof (cases "q' = q")
    case True
    then show ?thesis using Session ph by simp
  next
    case False
    then show ?thesis using Session ph by (simp split: option.splits prod.splits)
  qed
next
  case (Command c)
  then show ?thesis using ph by simp
next
  case (Upstream m)
  then show ?thesis using ph by simp
qed

lemma finished_run:
  "registry_inv st \<Longrightarrow> phase_of st q = Some (Finished out) \<Longrightarrow>
   phase_of (run evs st) q = Some (Finished out)"
proof (induction evs arbitrary: st)
  case Nil
  then show ?case by simp
next
  case (Cons e evs)
  show ?case
    using Cons.IH [OF inv_step [OF Cons.prems(1)] finished_step [OF Cons.prems]]
    by (simp add: run_Cons)
qed

section \<open>Claims\<close>

text \<open>
  C4. A command token outside the vocabulary \<open>pp\<close>, \<open>fwd\<close>, \<open>rew\<close>, \<open>out\<close> is rejected
  with status 400 and the content \<open>{"error": "Invalid command"}\<close>; nothing is broadcast and
  the server state (registry and every queue) is left as it was. The request is accepted
  (status 202) for exactly the four tokens of the vocabulary.
\<close>

theorem invalid_command_rejected:
  "(command \<notin> {''pp'', ''fwd'', ''rew'', ''out''} \<longrightarrow>
      send_webcontrol_command command s =
        (JSONResponse 400 (JObject [(''error'', JString ''Invalid command'')]), s) \<and>
      step (Command command) st = st) \<and>
   (status_code (fst (send_webcontrol_command command s)) = 202 \<longleftrightarrow>
      command \<in> {''pp'', ''fwd'', ''rew'', ''out''})"
  by (simp add: send_webcontrol_command_def valid_commands_def Let_def)

theorem invalid_command_rejected_witness:
  \<open>send_webcontrol_command ''xyz'' (srv (run [Connect] init_system)) =
     (JSONResponse 400 (JObject [(''error'', JString ''Invalid command'')]),
      srv (run [Connect] init_system)) \<and>
   sse_clients (srv (step (Command ''xyz'') (run [Connect] init_system))) = [0] \<and>
   queues (srv (step (Command ''xyz'') (run [Connect] init_system))) 0 = [] \<and>
   status_code (fst (send_webcontrol_command ''xyz'' (srv (run [Connect] init_system)))) = 400 \<and>
   body (fst (send_webcontrol_command ''xyz'' (srv (run [Connect] init_system)))) =
     ''{"error":"Invalid command"}'' \<and>
   status_code (fst (send_webcontrol_command ''pp'' (srv (run [Connect] init_system)))) = 202\<close>
proof -
  have b: \<open>body (JSONResponse 400 (JObject [(''error'', JString ''Invalid command'')])) =
     ''{"error":"Invalid command"}''\<close>
    by code_simp
  have r: "srv (run [Connect] init_system) = \<lparr>sse_clients = [0], queues = (\<lambda>_. []), fresh = 1\<rparr>"
    by (simp add: run_def stream_events_def init_system_def init_server_def Let_def fun_upd_idem_iff)
  show ?thesis
    using invalid_command_rejected [of "''xyz''" "srv (run [Connect] init_system)" "run [Connect] init_system"]
      invalid_command_rejected [of "''pp''" "srv (run [Connect] init_system)" "run [Connect] init_system"]
    by (simp add: b r)
qed

text \<open>
  C1 (amended). For every command token of the vocabulary, \<open>send_webcontrol_command\<close>
  builds the payload \<open>{"type": "webcontrol", "command": token}\<close> (the type is
  \<open>webcontrol\<close>, not \<open>control\<close>), hands it to \<open>broadcast\<close> and answers with status 202
  and \<open>{"status": "Command queued"}\<close>. In every state the server can reach, each queue
  registered at that moment receives the serialised payload once, at its end; no other
  queue changes and the registry stays as it was.
\<close>

theorem webcontrol_command_broadcast:
  assumes "command \<in> {''pp'', ''fwd'', ''rew'', ''out''}"
    and "s = srv (run evs init_system)"
  shows \<open>fst (send_webcontrol_command command s) =
           JSONResponse 202 (JObject [(''status'', JString ''Command queued'')]) \<and>
         snd (send_webcontrol_command command s) =
           broadcast (JObject [(''type'', JString ''webcontrol''), (''command'', JString command)]) s \<and>
         sse_clients (snd (send_webcontrol_command command s)) = sse_clients s \<and>
         (\<forall>q. queues (snd (send_webcontrol_command command s)) q =
            (if q \<in> set (sse_clients s)
             then queues s q @ [''{"type": "webcontrol", "command": "'' @ command @ ''"}'']
             else queues s q))\<close>
proof -
  from assms(1) have v: "command \<in> valid_commands"
    by (simp add: valid_commands_def)
  have d: "distinct (sse_clients s)"
    using assms(2) reachable_distinct by simp
  from v have snd_eq: "snd (send_webcontrol_command command s) =
      broadcast (JObject [(''type'', JString ''webcontrol''), (''command'', JString command)]) s"
    by (simp add: send_webcontrol_command_def Let_def)
  from v have "fst (send_webcontrol_command command s) =
      JSONResponse 202 (JObject [(''status'', JString ''Command queued'')])"
    by (simp add: send_webcontrol_command_def Let_def)
  moreover note snd_eq
  moreover have "sse_clients (snd (send_webcontrol_command command s)) = sse_clients s"
    by simp
  moreover have \<open>\<forall>q. queues (snd (send_webcontrol_command command s)) q =
            (if q \<in> set (sse_clients s)
             then queues s q @ [''{"type": "webcontrol", "command": "'' @ command @ ''"}'']
             else queues s q)\<close>
    unfolding snd_eq using queues_broadcast_distinct [OF d] json_dumps_command [OF v]
    by simp
  ultimately show ?thesis by blast
qed

theorem webcontrol_command_broadcast_witness:
  \<open>''pp'' \<in> {''pp'', ''fwd'', ''rew'', ''out''} \<and>
   fst (send_webcontrol_command ''pp'' (srv (run [Connect, Connect] init_system))) =
     JSONResponse 202 (JObject [(''status'', JString ''Command queued'')]) \<and>
   sse_clients (snd (send_webcontrol_command ''pp'' (srv (run [Connect, Connect] init_system))))
     = [0, 1] \<and>
   queues (snd (send_webcontrol_command ''pp'' (srv (run [Connect, Connect] init_system)))) 0
     = [''{"type": "webcontrol", "command": "pp"}''] \<and>
   queues (snd (send_webcontrol_command ''pp'' (srv (run [Connect, Connect] init_system)))) 1
     = [''{"type": "webcontrol", "command": "pp"}''] \<and>
   queues (snd (send_webcontrol_command ''pp'' (srv (run [Connect, Connect] init_system)))) 2
     = []\<close>
proof -
  let ?s = "srv (run [Connect, Connect] init_system)"
  have m: "''pp'' \<in> {''pp'', ''fwd'', ''rew'', ''out''}" by simp
  note t = webcontrol_command_broadcast [OF m refl, of "[Connect, Connect]"]
  from t have r: "fst (send_webcontrol_command ''pp'' ?s) =
     JSONResponse 202 (JObject [(''status'', JString ''Command queued'')])"
    by blast
  from t have c: "sse_clients (snd (send_webcontrol_command ''pp'' ?s)) = [0, 1]"
    by (simp add: two_clients)
  from t have q: \<open>\<forall>q. queues (snd (send_webcontrol_command ''pp'' ?s)) q =
            (if q \<in> set (sse_clients ?s)
             then queues ?s q @ [''{"type": "webcontrol", "command": "'' @ ''pp'' @ ''"}'']
             else queues ?s q)\<close>
    by blast
  have q0: \<open>queues (snd (send_webcontrol_command ''pp'' ?s)) 0
     = [''{"type": "webcontrol", "command": "pp"}'']\<close>
    using spec [OF q, of 0] by (simp add: two_clients)
  have q1: \<open>queues (snd (send_webcontrol_command ''pp'' ?s)) 1
     = [''{"type": "webcontrol", "command": "pp"}'']\<close>
    using spec [OF q, of 1] by (simp add: two_clients)
  have q2: \<open>queues (snd (send_webcontrol_command ''pp'' ?s)) 2 = []\<close>
    using spec [OF q, of 2] by (simp add: two_clients)
  show ?thesis
    by (intro conjI m r c q0 q1 q2)
qed

text \<open>
  As the specification words it the claim fails: with one client registered, the command
  \<open>pp\<close> puts a payload of type \<open>webcontrol\<close> on the queue, which is not what broadcasting
  a payload of type \<open>control\<close> would put there.
\<close>

theorem webcontrol_payload_counterexample:
  \<open>queues (snd (send_webcontrol_command ''pp'' (srv (run [Connect] init_system)))) 0
     = [''{"type": "webcontrol", "command": "pp"}''] \<and>
   queues (broadcast (JObject [(''type'', JString ''control''), (''command'', JString ''pp'')])
             (srv (run [Connect] init_system))) 0
     = [''{"type": "control", "command": "pp"}''] \<and>
   snd (send_webcontrol_command ''pp'' (srv (run [Connect] init_system))) \<noteq>
     broadcast (JObject [(''type'', JString ''control''), (''command'', JString ''pp'')])
       (srv (run [Connect] init_system))\<close>
proof -
  let ?s = "srv (run [Connect] init_system)"
  have v: "''pp'' \<in> valid_commands" by (simp add: valid_commands_def)
  have c: \<open>json_dumps (JObject [(''type'', JString ''control''), (''command'', JString ''pp'')])
      = ''{"type": "control", "command": "pp"}''\<close>
    by code_simp
  have a: \<open>queues (snd (send_webcontrol_command ''pp'' ?s)) 0
     = [''{"type": "webcontrol", "command": "pp"}'']\<close>
    using json_dumps_command [OF v] v
    by (simp add: send_webcontrol_command_def Let_def queues_broadcast one_client)
  have b: \<open>queues (broadcast (JObject [(''type'', JString ''control''), (''command'', JString ''pp'')]) ?s) 0
     = [''{"type": "control", "command": "pp"}'']\<close>
    by (simp add: queues_broadcast one_client c)
  have "queues (snd (send_webcontrol_command ''pp'' ?s)) 0 \<noteq>
        queues (broadcast (JObject [(''type'', JString ''control''), (''command'', JString ''pp'')]) ?s) 0"
    unfolding a b by simp
  then have "snd (send_webcontrol_command ''pp'' ?s) \<noteq>
     broadcast (JObject [(''type'', JString ''control''), (''command'', JString ''pp'')]) ?s"
    by metis
  with a b show ?thesis by blast
qed

text \<open>
  C5. After \<open>N\<close> clients have registered, the registry holds \<open>N\<close> distinct queues, and
  \<open>broadcast\<close> puts the one serialised form \<open>json.dumps(payload)\<close> on each of them once: every
  registered queue holds exactly that one item, exactly \<open>N\<close> queues change, and the
  registry is unchanged. In every reachable state each registered queue gets the item
  appended once and no other queue changes. With no client registered the state is
  unchanged, so nothing is kept for later; a queue registered after a broadcast starts
  empty.
\<close>

theorem broadcast_delivers_once_to_each:
  assumes "s = srv (run (replicate N Connect) init_system)"
  shows "length (sse_clients s) = N \<and> distinct (sse_clients s) \<and>
         sse_clients (broadcast payload s) = sse_clients s \<and>
         (\<forall>q. queues (broadcast payload s) q =
            (if q \<in> set (sse_clients s) then [json_dumps payload] else [])) \<and>
         card {q. queues (broadcast payload s) q \<noteq> queues s q} = N \<and>
         (\<forall>q. queues (broadcast payload (srv (run evs init_system))) q =
            (if q \<in> set (sse_clients (srv (run evs init_system)))
             then queues (srv (run evs init_system)) q @ [json_dumps payload]
             else queues (srv (run evs init_system)) q)) \<and>
         (sse_clients s0 = [] \<longrightarrow> broadcast payload s0 = s0) \<and>
         queues (snd (stream_events (broadcast payload s0)))
           (fst (stream_events (broadcast payload s0))) = []"
proof -
  have s: "s = \<lparr>sse_clients = [0..<N], queues = (\<lambda>_. []), fresh = N\<rparr>"
    using assms connects by simp
  have q: "\<forall>q. queues (broadcast payload s) q =
            (if q \<in> set (sse_clients s) then [json_dumps payload] else [])"
    by (simp add: s queues_broadcast_distinct)
  have "{q. queues (broadcast payload s) q \<noteq> queues s q} = {0..<N}"
    by (auto simp: s queues_broadcast_distinct)
  then have c: "card {q. queues (broadcast payload s) q \<noteq> queues s q} = N"
    by simp
  have g: "\<forall>q. queues (broadcast payload (srv (run evs init_system))) q =
            (if q \<in> set (sse_clients (srv (run evs init_system)))
             then queues (srv (run evs init_system)) q @ [json_dumps payload]
             else queues (srv (run evs init_system)) q)"
    using queues_broadcast_distinct [OF reachable_distinct] by simp
  have e: "sse_clients s0 = [] \<longrightarrow> broadcast payload s0 = s0"
    by (simp add: broadcast_def put_all_def)
  have n: "queues (snd (stream_events (broadcast payload s0)))
           (fst (stream_events (broadcast payload s0))) = []"
    by (simp add: stream_events_def Let_def)
  show ?thesis using q c g e n by (simp add: s)
qed

theorem broadcast_delivers_once_to_each_witness:
  \<open>length (sse_clients (srv (run (replicate 2 Connect) init_system))) = 2 \<and>
   queues (broadcast (JObject [(''a'', JInt 1)]) (srv (run (replicate 2 Connect) init_system))) 0
     = [''{"a": 1}''] \<and>
   queues (broadcast (JObject [(''a'', JInt 1)]) (srv (run (replicate 2 Connect) init_system))) 1
     = [''{"a": 1}''] \<and>
   queues (broadcast (JObject [(''a'', JInt 1)]) (srv (run (replicate 2 Connect) init_system))) 2
     = [] \<and>
   card {q. queues (broadcast (JObject [(''a'', JInt 1)]) (srv (run (replicate 2 Connect) init_system))) q
            \<noteq> queues (srv (run (replicate 2 Connect) init_system)) q} = 2 \<and>
   broadcast (JObject [(''a'', JInt 1)]) init_server = init_server \<and>
   queues (snd (stream_events (broadcast (JObject [(''a'', JInt 1)]) init_server))) 0 = []\<close>
proof -
  let ?s = "srv (run (replicate 2 Connect) init_system)"
  let ?p = "JObject [(''a'', JInt 1)]"
  have j: \<open>json_dumps ?p = ''{"a": 1}''\<close>
    by code_simp
  have s: "?s = \<lparr>sse_clients = [0, 1], queues = (\<lambda>_. []), fresh = 2\<rparr>"
    using connects [of 2] by (simp add: numeral_2_eq_2)
  have i: "sse_clients init_server = []" "fst (stream_events init_server) = 0"
    by (simp_all add: init_server_def stream_events_def)
  note t = broadcast_delivers_once_to_each [OF refl, of 2 ?p "[]" init_server]
  from t have l: "length (sse_clients ?s) = 2" by blast
  from t have q: "\<forall>q. queues (broadcast ?p ?s) q =
            (if q \<in> set (sse_clients ?s) then [json_dumps ?p] else [])"
    by blast
  have q0: \<open>queues (broadcast ?p ?s) 0 = [''{"a": 1}'']\<close>
    using spec [OF q, of 0] by (simp add: s j)
  have q1: \<open>queues (broadcast ?p ?s) 1 = [''{"a": 1}'']\<close>
    using spec [OF q, of 1] by (simp add: s j)
  have q2: \<open>queues (broadcast ?p ?s) 2 = []\<close>
    using spec [OF q, of 2] by (simp add: s)
  from t have c: "card {q. queues (broadcast ?p ?s) q \<noteq> queues ?s q} = 2"
    by blast
  from t i have e: "broadcast ?p init_server = init_server"
    by blast
  from t have "queues (snd (stream_events (broadcast ?p init_server)))
           (fst (stream_events (broadcast ?p init_server))) = []"
    by blast
  then have n: "queues (snd (stream_events (broadcast ?p init_server))) 0 = []"
    by (simp add: e i)
  show ?thesis
    by (intro conjI l q0 q1 q2 c e n)
qed

text \<open>
  C6. The claim does not hold of the code. \<open>stream_events\<close> appends the queue to the
  registry before the generator exists, and the only removal is the \<open>finally\<close> block inside
  the generator. A session that ends before its generator is started, because the
  response is cancelled or the generator is closed before the first item is asked for,
  runs no code of the generator: the session is over and no longer live, yet its queue is
  still registered, stays registered whatever happens afterwards, and goes on receiving
  what is produced.
\<close>

theorem unstarted_session_keeps_queue_registered:
  "phase_of (run [Connect, Session 0 Cancel] init_system) 0 = Some (Finished Abandoned) \<and>
   \<not> live (run [Connect, Session 0 Cancel] init_system) 0 \<and>
   sse_clients (srv (run [Connect, Session 0 Cancel] init_system)) = [0] \<and>
   phase_of (run [Connect, Session 0 Close] init_system) 0 = Some (Finished Abandoned) \<and>
   sse_clients (srv (run [Connect, Session 0 Close] init_system)) = [0] \<and>
   queues (srv (run [Connect, Session 0 Cancel,
                     Upstream \<lparr>msg_type = ''message'', msg_data = ''A''\<rparr>] init_system)) 0
     = [''A''] \<and>
   (\<forall>evs. 0 \<in> set (sse_clients (srv (run ([Connect, Session 0 Cancel] @ evs) init_system))) \<and>
          \<not> live (run ([Connect, Session 0 Cancel] @ evs) init_system) 0)"
proof -
  let ?st = "run [Connect, Session 0 Cancel] init_system"
  have p: "phase_of ?st 0 = Some (Finished Abandoned)"
    by (simp add: run_eval)
  have l: "\<not> live ?st 0"
    using p by (simp add: live_def)
  have c: "sse_clients (srv ?st) = [0]"
    by (simp add: run_eval)
  have p': "phase_of (run [Connect, Session 0 Close] init_system) 0 = Some (Finished Abandoned)"
    by (simp add: run_eval)
  have c': "sse_clients (srv (run [Connect, Session 0 Close] init_system)) = [0]"
    by (simp add: run_eval)
  have q: "queues (srv (run [Connect, Session 0 Cancel,
                     Upstream \<lparr>msg_type = ''message'', msg_data = ''A''\<rparr>] init_system)) 0
     = [''A'']"
    by (simp add: run_eval)
  have f: "\<forall>evs. 0 \<in> set (sse_clients (srv (run ([Connect, Session 0 Cancel] @ evs) init_system))) \<and>
          \<not> live (run ([Connect, Session 0 Cancel] @ evs) init_system) 0"
  proof
    fix evs
    have eq: "run ([Connect, Session 0 Cancel] @ evs) init_system = run evs ?st"
      by (rule run_append)
    have a: "phase_of (run evs ?st) 0 = Some (Finished Abandoned)"
      using finished_run [OF reachable_inv p] .
    have "registry_inv (run evs ?st)"
      using inv_run [OF reachable_inv] .
    then have "0 \<in> set (sse_clients (srv (run evs ?st)))"
      using a by (simp add: registry_inv_def)
    moreover have "\<not> live (run evs ?st) 0"
      using a by (simp add: live_def)
    ultimately show "0 \<in> set (sse_clients (srv (run ([Connect, Session 0 Cancel] @ evs) init_system))) \<and>
          \<not> live (run ([Connect, Session 0 Cancel] @ evs) init_system) 0"
      unfolding eq by blast
  qed
  show ?thesis
    by (intro conjI p l c p' c' q f)
qed

text \<open>
  C3 (amended). Deregistration is \<open>sse_clients.remove(queue)\<close>, which is not idempotent:
  for a queue that is not in the registry it raises \<open>ValueError\<close> (the registry is not
  changed), and for a queue that is in it the first occurrence is removed. In a running
  server the removal of a live session's queue always succeeds, and no session ever ends
  with that \<open>ValueError\<close>: each session removes its own queue once, while it is registered.
\<close>

theorem deregister_absent_raises:
  "(q \<notin> set (sse_clients s) \<longrightarrow> sse_clients_remove q s = Inl ValueError) \<and>
   (q \<in> set (sse_clients s) \<longrightarrow>
      sse_clients_remove q s = Inr (s\<lparr>sse_clients := remove1 q (sse_clients s)\<rparr>)) \<and>
   (phase_of (run evs init_system) q' = Some ph \<and> (\<forall>out. ph \<noteq> Finished out) \<longrightarrow>
      (\<exists>s'. sse_clients_remove q' (srv (run evs init_system)) = Inr s')) \<and>
   phase_of (run evs init_system) q' \<noteq> Some (Finished (Raised ValueError))"
proof -
  have "phase_of (run evs init_system) q' = Some ph \<and> (\<forall>out. ph \<noteq> Finished out) \<longrightarrow>
      q' \<in> set (sse_clients (srv (run evs init_system)))"
    using reachable_inv [of evs] by (auto simp: registry_inv_def live_Some)
  then show ?thesis
    using reachable_no_value_error [of evs q'] by (auto simp: sse_clients_remove_def)
qed

theorem deregister_absent_raises_witness:
  "sse_clients_remove 1 (srv (run [Connect] init_system)) = Inl ValueError \<and>
   sse_clients_remove 0 (srv (run [Connect] init_system)) =
     Inr \<lparr>sse_clients = [], queues = (\<lambda>_. []), fresh = 1\<rparr> \<and>
   phase_of (run [Connect, Session 0 Next, Session 0 (Probe True)] init_system) 0
     = Some (Finished Completed)"
proof -
  note t = deregister_absent_raises [of _ "srv (run [Connect] init_system)"
      "[Connect, Session 0 Next, Session 0 (Probe True)]" 0 Probing]
  have a: "sse_clients_remove 1 (srv (run [Connect] init_system)) = Inl ValueError"
    using t [of 1] by (simp add: one_client)
  have b: "sse_clients_remove 0 (srv (run [Connect] init_system)) =
     Inr \<lparr>sse_clients = [], queues = (\<lambda>_. []), fresh = 1\<rparr>"
    using t [of 0] by (simp add: one_client)
  have c: "phase_of (run [Connect, Session 0 Next, Session 0 (Probe True)] init_system) 0
     = Some (Finished Completed)"
    by (simp add: run_eval)
  show ?thesis
    by (intro conjI a b c)
qed

text \<open>
  As the specification words it the claim fails: removing a queue that was never
  registered, or removing one a second time, raises \<open>ValueError\<close>, and a generator whose
  \<open>finally\<close> block did so would end with that error.
\<close>

theorem deregister_idempotent_counterexample:
  "sse_clients_remove 0 init_server = Inl ValueError \<and>
   sse_clients_remove 0 (snd (stream_events init_server)) =
     Inr \<lparr>sse_clients = [], queues = (\<lambda>_. []), fresh = 1\<rparr> \<and>
   sse_clients_remove 0 \<lparr>sse_clients = [], queues = (\<lambda>_. []), fresh = 1\<rparr> = Inl ValueError \<and>
   run_finally 0 Completed \<lparr>sse_clients = [], queues = (\<lambda>_. []), fresh = 1\<rparr> =
     (Finished (Raised ValueError), \<lparr>sse_clients = [], queues = (\<lambda>_. []), fresh = 1\<rparr>)"
  by (simp add: sse_clients_remove_def init_server_def stream_events_def Let_def run_finally_def
      fun_upd_idem_iff)

text \<open>
  C8. For every run of the server and every queue, the items its generator has yielded
  followed by the items still in the queue are exactly the items produced while the queue
  was registered, in the order of their production: each queue is first in, first out
  across both producers. In particular, in any reachable state, an upstream message \<open>a\<close>,
  then the command \<open>pp\<close>, then an upstream message \<open>b\<close> extend every registered queue by
  \<open>a\<close>, the serialised command payload and \<open>b\<close>, in that order.
\<close>

theorem deliveries_preserve_production_order:
  \<open>yielded q evs init_system @ queues (srv (run evs init_system)) q = offered q evs init_system \<and>
   (q \<in> set (sse_clients (srv (run evs init_system))) \<longrightarrow>
      queues (srv (run [Upstream \<lparr>msg_type = ''message'', msg_data = a\<rparr>,
                        Command ''pp'',
                        Upstream \<lparr>msg_type = ''message'', msg_data = b\<rparr>]
                   (run evs init_system))) q
        = queues (srv (run evs init_system)) q
          @ [a, ''{"type": "webcontrol", "command": "pp"}'', b])\<close>
proof -
  let ?st = "run evs init_system"
  let ?three = "[Upstream \<lparr>msg_type = ''message'', msg_data = a\<rparr>, Command ''pp'',
                 Upstream \<lparr>msg_type = ''message'', msg_data = b\<rparr>]"
  have inv: "registry_inv ?st" by (rule reachable_inv)
  have v: "''pp'' \<in> valid_commands" by (simp add: valid_commands_def)
  have general: "yielded q evs init_system @ queues (srv ?st) q = offered q evs init_system"
    using fifo_run [OF inv_init, of q evs] by (simp add: init_system_def init_server_def)
  have y: "yielded q ?three ?st = []"
    by simp
  have o: \<open>q \<in> set (sse_clients (srv ?st)) \<Longrightarrow>
      offered q ?three ?st = [a, ''{"type": "webcontrol", "command": "pp"}'', b]\<close>
    using json_dumps_command [OF v] v by (simp add: produced_def)
  have \<open>q \<in> set (sse_clients (srv ?st)) \<Longrightarrow>
      queues (srv (run ?three ?st)) q
        = queues (srv ?st) q @ [a, ''{"type": "webcontrol", "command": "pp"}'', b]\<close>
    using fifo_run [OF inv, of q ?three] y o by simp
  with general show ?thesis by blast
qed

theorem deliveries_preserve_production_order_witness:
  \<open>queues (srv (run [Upstream \<lparr>msg_type = ''message'', msg_data = ''A''\<rparr>,
                     Command ''pp'',
                     Upstream \<lparr>msg_type = ''message'', msg_data = ''B''\<rparr>]
                (run [Connect, Connect] init_system))) 0
     = [''A'', ''{"type": "webcontrol", "command": "pp"}'', ''B''] \<and>
   queues (srv (run [Upstream \<lparr>msg_type = ''message'', msg_data = ''A''\<rparr>,
                     Command ''pp'',
                     Upstream \<lparr>msg_type = ''message'', msg_data = ''B''\<rparr>]
                (run [Connect, Connect] init_system))) 1
     = [''A'', ''{"type": "webcontrol", "command": "pp"}'', ''B''] \<and>
   yielded 0 [Connect, Upstream \<lparr>msg_type = ''message'', msg_data = ''A''\<rparr>,
              Upstream \<lparr>msg_type = ''message'', msg_data = ''B''\<rparr>,
              Session 0 Next, Session 0 (Probe False), Session 0 Wake] init_system = [''A''] \<and>
   queues (srv (run [Connect, Upstream \<lparr>msg_type = ''message'', msg_data = ''A''\<rparr>,
              Upstream \<lparr>msg_type = ''message'', msg_data = ''B''\<rparr>,
              Session 0 Next, Session 0 (Probe False), Session 0 Wake] init_system)) 0 = [''B''] \<and>
   offered 0 [Connect, Upstream \<lparr>msg_type = ''message'', msg_data = ''A''\<rparr>,
              Upstream \<lparr>msg_type = ''message'', msg_data = ''B''\<rparr>,
              Session 0 Next, Session 0 (Probe False), Session 0 Wake] init_system
     = [''A'', ''B'']\<close>
proof -
  let ?evs = "[Connect, Upstream \<lparr>msg_type = ''message'', msg_data = ''A''\<rparr>,
              Upstream \<lparr>msg_type = ''message'', msg_data = ''B''\<rparr>,
              Session 0 Next, Session 0 (Probe False), Session 0 Wake]"
  note t = deliveries_preserve_production_order [of _ "[Connect, Connect]" "''A''" "''B''"]
  have q0: \<open>queues (srv (run [Upstream \<lparr>msg_type = ''message'', msg_data = ''A''\<rparr>,
                     Command ''pp'',
                     Upstream \<lparr>msg_type = ''message'', msg_data = ''B''\<rparr>]
                (run [Connect, Connect] init_system))) 0
     = [''A'', ''{"type": "webcontrol", "command": "pp"}'', ''B'']\<close>
    using t [of 0] by (simp add: two_clients)
  have q1: \<open>queues (srv (run [Upstream \<lparr>msg_type = ''message'', msg_data = ''A''\<rparr>,
                     Command ''pp'',
                     Upstream \<lparr>msg_type = ''message'', msg_data = ''B''\<rparr>]
                (run [Connect, Connect] init_system))) 1
     = [''A'', ''{"type": "webcontrol", "command": "pp"}'', ''B'']\<close>
    using t [of 1] by (simp add: two_clients)
  have y: "yielded 0 ?evs init_system = [''A'']"
    by (simp add: run_eval)
  have q: "queues (srv (run ?evs init_system)) 0 = [''B'']"
    by (simp add: run_eval)
  have o: "offered 0 ?evs init_system = [''A'', ''B'']"
    using deliveries_preserve_production_order [of 0 ?evs "''A''" "''B''"]
    unfolding y q by simp
  show ?thesis
    by (intro conjI q0 q1 y q o)
qed

text \<open>
  C9. An entry of the subscription stream whose \<open>type\<close> is not \<open>message\<close> changes nothing:
  no queue receives anything. After the listener has handled any sequence of entries,
  each registered queue has been extended by the data of exactly the entries of type
  \<open>message\<close>, in order, and no other queue has changed.
\<close>

theorem only_message_entries_forwarded:
  "(msg_type m \<noteq> ''message'' \<longrightarrow> on_entry m s = s \<and> step (Upstream m) st = st) \<and>
   raised (redis_listener ch (map Entry ms) (srv (run evs init_system))) = None \<and>
   sse_clients (final (redis_listener ch (map Entry ms) (srv (run evs init_system))))
     = sse_clients (srv (run evs init_system)) \<and>
   (\<forall>q. queues (final (redis_listener ch (map Entry ms) (srv (run evs init_system)))) q =
      (if q \<in> set (sse_clients (srv (run evs init_system)))
       then queues (srv (run evs init_system)) q
            @ map msg_data (filter (\<lambda>m. msg_type m = ''message'') ms)
       else queues (srv (run evs init_system)) q))"
  using queues_fold_on_entry [OF reachable_distinct, of ms evs]
  by (simp add: redis_listener_def listen_loop_entries on_entry_def)

theorem only_message_entries_forwarded_witness:
  "on_entry \<lparr>msg_type = ''subscribe'', msg_data = ''1''\<rparr> (srv (run [Connect] init_system))
     = srv (run [Connect] init_system) \<and>
   queues (final (redis_listener ''updates''
      [Entry \<lparr>msg_type = ''subscribe'', msg_data = ''1''\<rparr>,
       Entry \<lparr>msg_type = ''message'', msg_data = ''A''\<rparr>,
       Entry \<lparr>msg_type = ''pong'', msg_data = []\<rparr>,
       Entry \<lparr>msg_type = ''message'', msg_data = ''B''\<rparr>]
      (srv (run [Connect] init_system)))) 0 = [''A'', ''B''] \<and>
   queues (final (redis_listener ''updates''
      [Entry \<lparr>msg_type = ''subscribe'', msg_data = ''1''\<rparr>,
       Entry \<lparr>msg_type = ''unsubscribe'', msg_data = ''0''\<rparr>]
      (srv (run [Connect] init_system)))) 0 = []"
proof -
  let ?s = "srv (run [Connect] init_system)"
  let ?sub = "\<lparr>msg_type = ''subscribe'', msg_data = ''1''\<rparr>"
  let ?ms = "[?sub, \<lparr>msg_type = ''message'', msg_data = ''A''\<rparr>,
       \<lparr>msg_type = ''pong'', msg_data = []\<rparr>, \<lparr>msg_type = ''message'', msg_data = ''B''\<rparr>]"
  let ?ns = "[?sub, \<lparr>msg_type = ''unsubscribe'', msg_data = ''0''\<rparr>]"
  have a: "on_entry ?sub ?s = ?s"
    using only_message_entries_forwarded [of ?sub ?s] by simp
  have "\<forall>q. queues (final (redis_listener ''updates'' (map Entry ?ms) ?s)) q =
      (if q \<in> set (sse_clients ?s)
       then queues ?s q @ map msg_data (filter (\<lambda>m. msg_type m = ''message'') ?ms)
       else queues ?s q)"
    using only_message_entries_forwarded [of ?sub ?s _ "''updates''" ?ms "[Connect]"] by blast
  from spec [OF this, of 0]
  have b: "queues (final (redis_listener ''updates'' (map Entry ?ms) ?s)) 0 = [''A'', ''B'']"
    by (simp add: one_client)
  have "\<forall>q. queues (final (redis_listener ''updates'' (map Entry ?ns) ?s)) q =
      (if q \<in> set (sse_clients ?s)
       then queues ?s q @ map msg_data (filter (\<lambda>m. msg_type m = ''message'') ?ns)
       else queues ?s q)"
    using only_message_entries_forwarded [of ?sub ?s _ "''updates''" ?ns "[Connect]"] by blast
  from spec [OF this, of 0]
  have c: "queues (final (redis_listener ''updates'' (map Entry ?ns) ?s)) 0 = []"
    by (simp add: one_client)
  from a b c show ?thesis by simp
qed

text \<open>
  C7 (amended). The data of every entry of type \<open>message\<close> is put unchanged, with no
  serialisation, on every queue registered when the entry is handled, and on no other
  queue; the registry is not changed. The listener does this in a loop of its own over a
  copy of the registry and not through \<open>broadcast\<close>: \<open>broadcast\<close> would put
  \<open>json.dumps\<close> of the data on the queues, which always differs from the data.
\<close>

theorem upstream_message_pushed_verbatim:
  assumes "msg_type m = ''message''" and "st = run evs init_system"
  shows "(\<forall>q. queues (srv (step (Upstream m) st)) q =
            (if q \<in> set (sse_clients (srv st)) then queues (srv st) q @ [msg_data m]
             else queues (srv st) q)) \<and>
         sse_clients (srv (step (Upstream m) st)) = sse_clients (srv st) \<and>
         final (redis_listener ch [Entry m] (srv st)) = srv (step (Upstream m) st) \<and>
         json_dumps (JString (msg_data m)) \<noteq> msg_data m \<and>
         (sse_clients (srv st) \<noteq> [] \<longrightarrow>
            srv (step (Upstream m) st) \<noteq> broadcast (JString (msg_data m)) (srv st))"
proof -
  have d: "distinct (sse_clients (srv st))"
    using assms(2) reachable_distinct by simp
  have q: "\<forall>q. queues (srv (step (Upstream m) st)) q =
            (if q \<in> set (sse_clients (srv st)) then queues (srv st) q @ [msg_data m]
             else queues (srv st) q)"
    using assms(1) by (simp add: queues_on_entry [OF d])
  have l: "final (redis_listener ch [Entry m] (srv st)) = srv (step (Upstream m) st)"
    by (simp add: redis_listener_def)
  have n: "json_dumps (JString (msg_data m)) \<noteq> msg_data m"
    using json_dumps_string_longer [of "msg_data m"] by auto
  have "srv (step (Upstream m) st) \<noteq> broadcast (JString (msg_data m)) (srv st)"
    if "sse_clients (srv st) \<noteq> []"
  proof -
    from that obtain q0 where q0: "q0 \<in> set (sse_clients (srv st))"
      by (cases "sse_clients (srv st)") auto
    have "queues (srv (step (Upstream m) st)) q0 = queues (srv st) q0 @ [msg_data m]"
      using q q0 by simp
    moreover have "queues (broadcast (JString (msg_data m)) (srv st)) q0
        = queues (srv st) q0 @ [json_dumps (JString (msg_data m))]"
      using q0 by (simp add: queues_broadcast_distinct [OF d])
    ultimately have "queues (srv (step (Upstream m) st)) q0
        \<noteq> queues (broadcast (JString (msg_data m)) (srv st)) q0"
      using n by simp
    then show ?thesis by metis
  qed
  with q l n show ?thesis by simp
qed

theorem upstream_message_pushed_verbatim_witness:
  \<open>queues (srv (step (Upstream \<lparr>msg_type = ''message'', msg_data = ''A''\<rparr>)
                  (run [Connect, Connect] init_system))) 0 = [''A''] \<and>
   queues (srv (step (Upstream \<lparr>msg_type = ''message'', msg_data = ''A''\<rparr>)
                  (run [Connect, Connect] init_system))) 1 = [''A''] \<and>
   queues (srv (step (Upstream \<lparr>msg_type = ''message'', msg_data = ''A''\<rparr>)
                  (run [Connect, Connect] init_system))) 2 = []\<close>
proof -
  let ?m = "\<lparr>msg_type = ''message'', msg_data = ''A''\<rparr>"
  let ?st = "run [Connect, Connect] init_system"
  have "\<forall>q. queues (srv (step (Upstream ?m) ?st)) q =
            (if q \<in> set (sse_clients (srv ?st)) then queues (srv ?st) q @ [msg_data ?m]
             else queues (srv ?st) q)"
    using upstream_message_pushed_verbatim [of ?m ?st "[Connect, Connect]" "''updates''"]
    by simp
  from spec [OF this, of 0] spec [OF this, of 1] spec [OF this, of 2]
  show ?thesis by (simp add: two_clients)
qed

text \<open>
  As the specification words it the claim fails: the listener does not go through
  \<open>broadcast\<close>. Handing the message \<open>A\<close> to \<open>broadcast\<close> would put its JSON text, in
  quotes, on the queue; the listener puts \<open>A\<close> itself.
\<close>

theorem upstream_via_broadcast_counterexample:
  \<open>queues (final (redis_listener ''updates'' [Entry \<lparr>msg_type = ''message'', msg_data = ''A''\<rparr>]
                   (srv (run [Connect] init_system)))) 0 = [''A''] \<and>
   queues (broadcast (JString ''A'') (srv (run [Connect] init_system))) 0 = [''"A"''] \<and>
   final (redis_listener ''updates'' [Entry \<lparr>msg_type = ''message'', msg_data = ''A''\<rparr>]
            (srv (run [Connect] init_system)))
     \<noteq> broadcast (JString ''A'') (srv (run [Connect] init_system))\<close>
proof -
  let ?s = "srv (run [Connect] init_system)"
  let ?m = "\<lparr>msg_type = ''message'', msg_data = ''A''\<rparr>"
  have j: \<open>json_dumps (JString ''A'') = ''"A"''\<close>
    by code_simp
  have a: "queues (final (redis_listener ''updates'' [Entry ?m] ?s)) 0 = [''A'']"
    by (simp add: redis_listener_def on_entry_def queues_put_all one_client)
  have b: \<open>queues (broadcast (JString ''A'') ?s) 0 = [''"A"'']\<close>
    by (simp add: queues_broadcast one_client j)
  have "queues (final (redis_listener ''updates'' [Entry ?m] ?s)) 0
      \<noteq> queues (broadcast (JString ''A'') ?s) 0"
    unfolding a b by simp
  then have "final (redis_listener ''updates'' [Entry ?m] ?s) \<noteq> broadcast (JString ''A'') ?s"
    by metis
  with a b show ?thesis by blast
qed

text \<open>
  C2 (amended). \<open>redis_listener\<close> subscribes once, before its loop, and has no handler:
  when a read of the stream raises, the exception leaves the loop and ends the listener
  without another subscription. The entries read before the failure have been handled;
  whatever the stream would have delivered afterwards is not relayed.
\<close>

theorem listener_ends_on_failure:
  "redis_listener ch (map Entry ms @ Failure # rest) s =
     \<lparr>calls = [Subscribe ch, Listen], raised = Some ConnectionError,
      final = final (redis_listener ch (map Entry ms) s)\<rparr> \<and>
   raised (redis_listener ch (map Entry ms) s) = None \<and>
   length (filter (\<lambda>c. \<exists>x. c = Subscribe x) (calls (redis_listener ch stream s))) = 1"
  by (simp add: redis_listener_def listen_loop_entries listen_loop_failure split: prod.splits)

theorem listener_ends_on_failure_witness:
  "raised (redis_listener ''updates''
      [Entry \<lparr>msg_type = ''message'', msg_data = ''A''\<rparr>, Failure,
       Entry \<lparr>msg_type = ''message'', msg_data = ''B''\<rparr>]
      (srv (run [Connect] init_system))) = Some ConnectionError \<and>
   calls (redis_listener ''updates''
      [Entry \<lparr>msg_type = ''message'', msg_data = ''A''\<rparr>, Failure,
       Entry \<lparr>msg_type = ''message'', msg_data = ''B''\<rparr>]
      (srv (run [Connect] init_system))) = [Subscribe ''updates'', Listen] \<and>
   queues (final (redis_listener ''updates''
      [Entry \<lparr>msg_type = ''message'', msg_data = ''A''\<rparr>, Failure,
       Entry \<lparr>msg_type = ''message'', msg_data = ''B''\<rparr>]
      (srv (run [Connect] init_system)))) 0 = [''A'']"
proof -
  let ?a = "\<lparr>msg_type = ''message'', msg_data = ''A''\<rparr>"
  let ?b = "\<lparr>msg_type = ''message'', msg_data = ''B''\<rparr>"
  let ?s = "srv (run [Connect] init_system)"
  have "redis_listener ''updates'' (map Entry [?a] @ Failure # [Entry ?b]) ?s =
     \<lparr>calls = [Subscribe ''updates'', Listen], raised = Some ConnectionError,
      final = final (redis_listener ''updates'' (map Entry [?a]) ?s)\<rparr>"
    using listener_ends_on_failure [of "''updates''" "[?a]" "[Entry ?b]" ?s] by blast
  then have e: "redis_listener ''updates'' [Entry ?a, Failure, Entry ?b] ?s =
     \<lparr>calls = [Subscribe ''updates'', Listen], raised = Some ConnectionError,
      final = final (redis_listener ''updates'' [Entry ?a] ?s)\<rparr>"
    by simp
  have "queues (final (redis_listener ''updates'' [Entry ?a] ?s)) 0 = [''A'']"
    by (simp add: redis_listener_def on_entry_def queues_put_all one_client)
  then show ?thesis
    unfolding e by simp
qed


text \<open>
  As the specification words it the claim fails: after a failure there is no second
  subscription, and the message that follows the failure reaches no queue.
\<close>

theorem no_resubscription_counterexample:
  "redis_listener ''updates''
      [Failure, Entry \<lparr>msg_type = ''message'', msg_data = ''A''\<rparr>]
      (srv (run [Connect] init_system))
    = \<lparr>calls = [Subscribe ''updates'', Listen], raised = Some ConnectionError,
       final = srv (run [Connect] init_system)\<rparr> \<and>
   queues (final (redis_listener ''updates''
      [Failure, Entry \<lparr>msg_type = ''message'', msg_data = ''A''\<rparr>]
      (srv (run [Connect] init_system)))) 0 = []"
  by (simp add: redis_listener_def one_client)



end
